theory Spec2Isabelle
  imports Main "HOL-Library.AList"
begin

section \<open>Errors\<close>

text \<open>
  The program raises \<open>SyntaxError\<close> itself. \<open>AttributeError\<close> is what Python raises when an
  attribute is read from \<open>None\<close>; it is not a subclass of \<open>SyntaxError\<close>, so the
  \<open>except SyntaxError\<close> of \<open>main\<close> does not catch it. Each carries its message.
\<close>

datatype error = SyntaxError string | AttributeError string

section \<open>Characters\<close>

text \<open>
  A text is a list of characters; \<open>CHR n\<close> stands for the code point \<open>n\<close>, so the model
  covers the texts whose code points are below 256. The classes are those of Python's
  \<open>re\<close> on \<open>str\<close> patterns: \<open>\d\<close> is the decimal digits (below 256 only \<open>0-9\<close>),
  \<open>\w\<close> is the alphanumeric characters and the underscore (below 256 the ranges listed),
  \<open>[a-z]\<close> and \<open>[a-z0-9_]\<close> are literal ranges.
\<close>

definition code :: "char \<Rightarrow> nat" where
  "code c = of_char c"

definition is_digit :: "char \<Rightarrow> bool" where
  "is_digit c \<longleftrightarrow> 48 \<le> code c \<and> code c \<le> 57"

definition is_lower :: "char \<Rightarrow> bool" where
  "is_lower c \<longleftrightarrow> 97 \<le> code c \<and> code c \<le> 122"

definition is_ident_char :: "char \<Rightarrow> bool" where
  "is_ident_char c \<longleftrightarrow> is_lower c \<or> (48 \<le> code c \<and> code c \<le> 57) \<or> c = CHR ''_''"

definition is_word :: "char \<Rightarrow> bool" where
  "is_word c \<longleftrightarrow>
     (48 \<le> code c \<and> code c \<le> 57) \<or> (65 \<le> code c \<and> code c \<le> 90) \<or> code c = 95 \<or>
     (97 \<le> code c \<and> code c \<le> 122) \<or> code c = 170 \<or> (178 \<le> code c \<and> code c \<le> 179) \<or>
     code c = 181 \<or> (185 \<le> code c \<and> code c \<le> 186) \<or> (188 \<le> code c \<and> code c \<le> 190) \<or>
     (192 \<le> code c \<and> code c \<le> 214) \<or> (216 \<le> code c \<and> code c \<le> 246) \<or> 248 \<le> code c"

definition is_space :: "char \<Rightarrow> bool" where
  "is_space c \<longleftrightarrow> c = CHR '' '' \<or> c = CHR 0x09 \<or> c = CHR 0x0A"

section \<open>Comment stripping\<close>

text \<open>
  \<open>remove_comments\<close> is \<open>re.sub(r"--\[\[.*?\]\]", "", text, flags=re.S)\<close>: scanning from
  the left, a position where \<open>--[[\<close> starts and a \<open>]]\<close> follows it is replaced, up to the
  end of the first such \<open>]]\<close>, by nothing, and the scan goes on after it; at any other
  position the character is kept. \<open>find_close\<close> is the lazy \<open>.*?\]\]\<close>: the text after
  the first \<open>]]\<close>, if there is one.
\<close>

fun find_close :: "string \<Rightarrow> string option" where
  "find_close (a # b # cs) =
     (if a = CHR '']'' \<and> b = CHR '']'' then Some cs else find_close (b # cs))"
| "find_close _ = None"

lemma find_close_length: "find_close s = Some r \<Longrightarrow> length r < length s"
  by (induction s rule: find_close.induct) (auto split: if_splits)

function remove_comments :: "string \<Rightarrow> string" where
  "remove_comments [] = []"
| "remove_comments (c # cs) =
     (if take 4 (c # cs) = ''--[['' then
        (case find_close (drop 4 (c # cs)) of
           Some rest \<Rightarrow> remove_comments rest
         | None \<Rightarrow> c # remove_comments cs)
      else c # remove_comments cs)"
  by pat_completeness auto
termination
proof (relation "measure length")
  fix c cs rest
  assume "find_close (drop 4 (c # cs)) = Some rest"
  then have "length rest < length (drop 4 (c # cs))"
    by (rule find_close_length)
  then show "(rest, c # cs) \<in> measure length"
    by simp
qed simp_all

text \<open>
  A block comment is a text the pattern matches as a whole: \<open>--[[\<close>, then a body, then
  the first \<open>]]\<close> after the opener, which ends it.

  \<open>scan_at t p\<close>: the scan of \<open>remove_comments\<close> over \<open>t\<close> stops at the position \<open>p\<close>, and
  every \<open>--[[\<close> it meets before \<open>p\<close> has its \<open>]]\<close>. So \<open>p\<close> is not inside a comment of
  \<open>t\<close>, and no \<open>--[[\<close> before \<open>p\<close> is left open.
\<close>

definition is_comment :: "string \<Rightarrow> bool" where
  "is_comment c \<longleftrightarrow> take 4 c = ''--[['' \<and> find_close (drop 4 c) = Some []"

function scan_at :: "string \<Rightarrow> nat \<Rightarrow> bool" where
  "scan_at t 0 = True"
| "scan_at [] (Suc p) = False"
| "scan_at (c # cs) (Suc p) =
     (if take 4 (c # cs) = ''--[['' then
        (case find_close (drop 4 (c # cs)) of
           Some rest \<Rightarrow>
             length (c # cs) - length rest \<le> Suc p \<and>
             scan_at rest (Suc p - (length (c # cs) - length rest))
         | None \<Rightarrow> False)
      else scan_at cs p)"
  by pat_completeness auto
termination scan_at
proof (relation "measure (\<lambda>(t, p). length t)", goal_cases)
  case 1 show ?case by simp
next
  case (2 c cs p rest)
  then have "length rest < length (drop 4 (c # cs))"
    by (intro find_close_length) simp
  then show ?case by simp
next
  case 3 then show ?case by simp
qed

section \<open>Lexer\<close>

datatype ttype =
  NUMBER | STRING | SET | STRUCT | LIST | CONST' | IDENT
  | LBRACE | RBRACE | LPAREN | RPAREN | EQUAL | COMMA | SKIP

text \<open>
  The token types are strings in the source; \<open>type_name\<close> gives the string back.
  \<open>CONST'\<close> is the source's \<open>CONST\<close>, a word that HOL's term syntax reserves.
\<close>

fun type_name :: "ttype \<Rightarrow> string" where
  "type_name NUMBER = ''NUMBER''"
| "type_name STRING = ''STRING''"
| "type_name SET = ''SET''"
| "type_name STRUCT = ''STRUCT''"
| "type_name LIST = ''LIST''"
| "type_name CONST' = ''CONST''"
| "type_name IDENT = ''IDENT''"
| "type_name LBRACE = ''LBRACE''"
| "type_name RBRACE = ''RBRACE''"
| "type_name LPAREN = ''LPAREN''"
| "type_name RPAREN = ''RPAREN''"
| "type_name EQUAL = ''EQUAL''"
| "type_name COMMA = ''COMMA''"
| "type_name SKIP = ''SKIP''"

datatype token = Token (tok_type: ttype) (tok_value: string)

text \<open>
  A pattern is modelled by its anchored match on the text from the current position on:
  the length of the match, or \<open>None\<close>. Each quantifier of the table is greedy and is
  followed by a character outside its class (or by nothing), so backtracking never finds
  a match that the greedy run misses.
\<close>

type_synonym pattern = "string \<Rightarrow> nat option"

text \<open>\<open>\d*\.\d+\<close>\<close>

definition match_NUMBER :: pattern where
  "match_NUMBER s =
     (case dropWhile is_digit s of
        [] \<Rightarrow> None
      | c # r \<Rightarrow>
          if c = CHR ''.'' \<and> takeWhile is_digit r \<noteq> []
          then Some (length (takeWhile is_digit s) + 1 + length (takeWhile is_digit r))
          else None)"

text \<open>\<open>'[^']*'\<close>\<close>

definition match_STRING :: pattern where
  "match_STRING s =
     (case s of
        [] \<Rightarrow> None
      | c # r \<Rightarrow>
          if c = CHR 0x27 then
            (case dropWhile (\<lambda>x. x \<noteq> CHR 0x27) r of
               [] \<Rightarrow> None
             | q # _ \<Rightarrow> Some (length (takeWhile (\<lambda>x. x \<noteq> CHR 0x27) r) + 2))
          else None)"

text \<open>
  \<open>\b\<close> after a word character: the end of the text, or a character that is not a word
  character.
\<close>

definition word_end :: "string \<Rightarrow> bool" where
  "word_end s = (case s of [] \<Rightarrow> True | c # _ \<Rightarrow> \<not> is_word c)"

text \<open>
  \<open>set\b\<close>, \<open>struct\b\<close> and \<open>\(list\b\<close>: a literal that ends in a word character, then
  \<open>\b\<close>.
\<close>

definition match_keyword :: "string \<Rightarrow> pattern" where
  "match_keyword kw s =
     (if take (length kw) s = kw \<and> word_end (drop (length kw) s)
      then Some (length kw) else None)"

text \<open>\<open>\|[a-z][a-z0-9_]*\|\<close>\<close>

definition match_CONST :: pattern where
  "match_CONST s =
     (case s of
        b # c # r \<Rightarrow>
          if b = CHR ''|'' \<and> is_lower c then
            (case dropWhile is_ident_char r of
               [] \<Rightarrow> None
             | q # _ \<Rightarrow>
                 if q = CHR ''|'' then Some (length (takeWhile is_ident_char r) + 3)
                 else None)
          else None
      | _ \<Rightarrow> None)"

text \<open>\<open>[a-z][a-z0-9_]*\<close>\<close>

definition match_IDENT :: pattern where
  "match_IDENT s =
     (case s of
        [] \<Rightarrow> None
      | c # r \<Rightarrow> if is_lower c then Some (1 + length (takeWhile is_ident_char r)) else None)"

text \<open>A single literal character.\<close>

definition match_char :: "char \<Rightarrow> pattern" where
  "match_char x s = (case s of [] \<Rightarrow> None | c # _ \<Rightarrow> if c = x then Some 1 else None)"

text \<open>\<open>[ \t\n]+\<close>\<close>

definition match_SKIP :: pattern where
  "match_SKIP s =
     (if takeWhile is_space s = [] then None else Some (length (takeWhile is_space s)))"

definition TOKEN_REGEX :: "(ttype \<times> pattern) list" where
  "TOKEN_REGEX =
     [(NUMBER, match_NUMBER),
      (STRING, match_STRING),
      (SET, match_keyword ''set''),
      (STRUCT, match_keyword ''struct''),
      (LIST, match_keyword ''(list''),
      (CONST', match_CONST),
      (IDENT, match_IDENT),
      (LBRACE, match_char CHR ''{''),
      (RBRACE, match_char CHR ''}''),
      (LPAREN, match_char CHR ''(''),
      (RPAREN, match_char CHR '')''),
      (EQUAL, match_char CHR ''=''),
      (COMMA, match_char CHR '',''),
      (SKIP, match_SKIP)]"

text \<open>
  The \<open>for\<close> loop of \<open>tokenize\<close>: the patterns are tried in the order of the table and
  the first that matches ends the loop.
\<close>

fun first_match :: "(ttype \<times> pattern) list \<Rightarrow> string \<Rightarrow> (ttype \<times> nat) option" where
  "first_match [] s = None"
| "first_match ((ttype, regex) # ps) s =
     (case regex s of Some n \<Rightarrow> Some (ttype, n) | None \<Rightarrow> first_match ps s)"

text \<open>The decimal digits of a number, as the f-string prints the position.\<close>

function show_nat :: "nat \<Rightarrow> string" where
  "show_nat n =
     (if n < 10 then [char_of (48 + n)] else show_nat (n div 10) @ [char_of (48 + n mod 10)])"
  by pat_completeness auto
termination
  by (relation "measure id") auto

declare show_nat.simps [simp del]

lemma match_NUMBER_pos: "match_NUMBER s = Some n \<Longrightarrow> 0 < n"
  by (auto simp: match_NUMBER_def split: list.splits if_splits)

lemma match_STRING_pos: "match_STRING s = Some n \<Longrightarrow> 0 < n"
  by (auto simp: match_STRING_def split: list.splits if_splits)

lemma match_keyword_pos: "kw \<noteq> [] \<Longrightarrow> match_keyword kw s = Some n \<Longrightarrow> 0 < n"
  by (auto simp: match_keyword_def split: if_splits)

lemma match_CONST_pos: "match_CONST s = Some n \<Longrightarrow> 0 < n"
  by (auto simp: match_CONST_def split: list.splits if_splits)

lemma match_IDENT_pos: "match_IDENT s = Some n \<Longrightarrow> 0 < n"
  by (auto simp: match_IDENT_def split: list.splits if_splits)

lemma match_char_pos: "match_char x s = Some n \<Longrightarrow> 0 < n"
  by (auto simp: match_char_def split: list.splits if_splits)

lemma match_SKIP_pos: "match_SKIP s = Some n \<Longrightarrow> 0 < n"
  by (auto simp: match_SKIP_def split: if_splits)

lemma first_match_pos: "first_match TOKEN_REGEX s = Some (ttype, n) \<Longrightarrow> 0 < n"
  unfolding TOKEN_REGEX_def
  by (auto split: option.splits
      dest: match_NUMBER_pos match_STRING_pos match_keyword_pos [rotated] match_CONST_pos
        match_IDENT_pos match_char_pos match_SKIP_pos)

text \<open>
  \<open>tokenize\<close>: the \<open>while\<close> loop with its position and its tokens; a \<open>SKIP\<close> match
  moves the position and adds no token.
\<close>

function tokenize_loop :: "string \<Rightarrow> nat \<Rightarrow> token list \<Rightarrow> error + token list" where
  "tokenize_loop src p toks =
     (if p < length src then
        (case first_match TOKEN_REGEX (drop p src) of
           None \<Rightarrow> Inl (SyntaxError (''Unexpected character at position '' @ show_nat p))
         | Some (ttype, n) \<Rightarrow>
             tokenize_loop src (p + n)
               (if ttype \<noteq> SKIP then toks @ [Token ttype (take n (drop p src))] else toks))
      else Inr toks)"
  by pat_completeness auto
lemma tokenize_loop_total: "All tokenize_loop_dom"
proof (rule "tokenize_loop.termination" [of "measure (\<lambda>(src, p, toks). length src - p)"],
    goal_cases)
  case 1
  show ?case by simp
next
  case (2 src p toks x2 ttype n)
  then have "0 < n"
    using first_match_pos [of "drop p src" ttype n] by simp
  with \<open>p < length src\<close> show ?case
    by simp
qed

termination tokenize_loop
  by (rule tokenize_loop_total)

declare tokenize_loop.simps [simp del]

definition tokenize :: "string \<Rightarrow> error + token list" where
  "tokenize src = tokenize_loop src 0 []"

text \<open>
  The states of the \<open>while\<close> loop of \<open>tokenize\<close>: it starts at position 0 with no
  token, and from a position inside the text where a pattern matches it goes to the end of
  the match. \<open>lexer_at src p toks\<close>: on \<open>src\<close> the loop comes to the position \<open>p\<close> with
  the tokens \<open>toks\<close>.
\<close>

inductive lexer_at :: "string \<Rightarrow> nat \<Rightarrow> token list \<Rightarrow> bool" for src :: string where
  start: "lexer_at src 0 []"
| step: "lexer_at src p toks \<Longrightarrow> p < length src \<Longrightarrow>
     first_match TOKEN_REGEX (drop p src) = Some (ttype, n) \<Longrightarrow>
     lexer_at src (p + n)
       (if ttype \<noteq> SKIP then toks @ [Token ttype (take n (drop p src))] else toks)"

code_pred lexer_at .

section \<open>Parser\<close>

text \<open>
  The parsed tree: a \<open>float\<close>, a \<open>str\<close>, a \<open>list\<close> or a \<open>dict\<close>. A \<open>dict\<close> keeps its keys
  in the order of their first insertion and an assignment to a key it has replaces the
  value where the key stands: an association list under \<open>AList.update\<close>. The numbers
  are of a type \<open>'n\<close>, and \<open>float\<close>, Python's conversion of a string to a number, is a
  parameter of the parser. On the text of a \<open>NUMBER\<close> token of the lexer, which matches
  \<open>\d*\.\d+\<close>, Python's \<open>float\<close> returns a number and never raises, so the parameter is
  a total function.
\<close>

datatype 'n val = VNumber 'n | VText string | VList "'n val list" | VStruct "(string \<times> 'n val) list"

record 'n parser =
  tokens :: "token list"
  pos :: nat
  constants :: "string \<rightharpoonup> 'n val"

definition Parser :: "token list \<Rightarrow> 'n parser" where
  "Parser toks = \<lparr>tokens = toks, pos = 0, constants = Map.empty\<rparr>"

definition peek :: "'n parser \<Rightarrow> token option" where
  "peek s = (if pos s < length (tokens s) then Some (tokens s ! pos s) else None)"

definition consume :: "ttype option \<Rightarrow> 'n parser \<Rightarrow> error + (token \<times> 'n parser)" where
  "consume expected s =
     (case peek s of
        None \<Rightarrow> Inl (SyntaxError ''Unexpected end of input'')
      | Some token \<Rightarrow>
          (case expected of
             None \<Rightarrow> Inr (token, s\<lparr>pos := pos s + 1\<rparr>)
           | Some e \<Rightarrow>
               if tok_type token \<noteq> e
               then Inl (SyntaxError (''Expected '' @ type_name e @ '', got '' @ type_name (tok_type token)))
               else Inr (token, s\<lparr>pos := pos s + 1\<rparr>)))"

definition strip :: "char \<Rightarrow> string \<Rightarrow> string" where
  "strip c s = rev (dropWhile (\<lambda>x. x = c) (rev (dropWhile (\<lambda>x. x = c) s)))"

definition optional_comma :: "'n parser \<Rightarrow> error + 'n parser" where
  "optional_comma s =
     (case peek s of
        None \<Rightarrow> Inr s
      | Some tok \<Rightarrow>
          if tok_type tok = COMMA then
            (case consume (Some COMMA) s of Inl e \<Rightarrow> Inl e | Inr (t, s1) \<Rightarrow> Inr s1)
          else Inr s)"

text \<open>
  The message of the \<open>AttributeError\<close> that \<open>tok.type\<close> raises when \<open>tok\<close> is \<open>None\<close>.
\<close>

definition no_attribute_type :: string where
  "no_attribute_type = CHR 0x27 # ''NoneType' object has no attribute 'type'' @ [CHR 0x27]"

function parse_value :: "(string \<Rightarrow> 'n) \<Rightarrow> 'n parser \<Rightarrow> error + ('n val \<times> 'n parser)"
  and parse_list :: "(string \<Rightarrow> 'n) \<Rightarrow> 'n parser \<Rightarrow> error + ('n val \<times> 'n parser)"
  and parse_list_loop ::
    "(string \<Rightarrow> 'n) \<Rightarrow> 'n parser \<Rightarrow> 'n val list \<Rightarrow> error + ('n val list \<times> 'n parser)"
  and parse_struct :: "(string \<Rightarrow> 'n) \<Rightarrow> 'n parser \<Rightarrow> error + ('n val \<times> 'n parser)"
  and parse_struct_loop ::
    "(string \<Rightarrow> 'n) \<Rightarrow> 'n parser \<Rightarrow> (string \<times> 'n val) list \<Rightarrow>
      error + ((string \<times> 'n val) list \<times> 'n parser)"
where
  "parse_value float s =
     (case peek s of
        None \<Rightarrow> Inl (AttributeError no_attribute_type)
      | Some tok \<Rightarrow>
          if tok_type tok = NUMBER then
            (case consume None s of
               Inl e \<Rightarrow> Inl e
             | Inr (t, s1) \<Rightarrow> Inr (VNumber (float (tok_value t)), s1))
          else if tok_type tok = STRING then
            (case consume None s of
               Inl e \<Rightarrow> Inl e
             | Inr (t, s1) \<Rightarrow> Inr (VText (strip (CHR 0x27) (tok_value t)), s1))
          else if tok_type tok = CONST' then
            (case consume None s of
               Inl e \<Rightarrow> Inl e
             | Inr (t, s1) \<Rightarrow>
                 (case constants s1 (strip CHR ''|'' (tok_value t)) of
                    None \<Rightarrow> Inl (SyntaxError (''Unknown constant '' @ strip CHR ''|'' (tok_value t)))
                  | Some v \<Rightarrow> Inr (v, s1)))
          else if tok_type tok = LIST then parse_list float s
          else if tok_type tok = STRUCT then parse_struct float s
          else Inl (SyntaxError (''Unexpected token '' @ type_name (tok_type tok))))"
| "parse_list float s =
     (case consume (Some LIST) s of
        Inl e \<Rightarrow> Inl e
      | Inr (t, s1) \<Rightarrow>
          (case parse_list_loop float s1 [] of
             Inl e \<Rightarrow> Inl e
           | Inr (items, s2) \<Rightarrow>
               (case consume (Some RPAREN) s2 of
                  Inl e \<Rightarrow> Inl e
                | Inr (t', s3) \<Rightarrow> Inr (VList items, s3))))"
| "parse_list_loop float s items =
     (case peek s of
        None \<Rightarrow> Inr (items, s)
      | Some tok \<Rightarrow>
          if tok_type tok \<noteq> RPAREN then
            (case parse_value float s of
               Inl e \<Rightarrow> Inl e
             | Inr (v, s1) \<Rightarrow> parse_list_loop float s1 (items @ [v]))
          else Inr (items, s))"
| "parse_struct float s =
     (case consume (Some STRUCT) s of
        Inl e \<Rightarrow> Inl e
      | Inr (t, s1) \<Rightarrow>
          (case consume (Some LBRACE) s1 of
             Inl e \<Rightarrow> Inl e
           | Inr (t', s2) \<Rightarrow>
               (case parse_struct_loop float s2 [] of
                  Inl e \<Rightarrow> Inl e
                | Inr (obj, s3) \<Rightarrow>
                    (case consume (Some RBRACE) s3 of
                       Inl e \<Rightarrow> Inl e
                     | Inr (t'', s4) \<Rightarrow> Inr (VStruct obj, s4)))))"
| "parse_struct_loop float s obj =
     (case peek s of
        None \<Rightarrow> Inr (obj, s)
      | Some tok \<Rightarrow>
          if tok_type tok \<noteq> RBRACE then
            (case consume (Some IDENT) s of
               Inl e \<Rightarrow> Inl e
             | Inr (k, s1) \<Rightarrow>
                 (case consume (Some EQUAL) s1 of
                    Inl e \<Rightarrow> Inl e
                  | Inr (t, s2) \<Rightarrow>
                      (case parse_value float s2 of
                         Inl e \<Rightarrow> Inl e
                       | Inr (v, s3) \<Rightarrow>
                           (case optional_comma s3 of
                              Inl e \<Rightarrow> Inl e
                            | Inr s4 \<Rightarrow>
                                parse_struct_loop float s4 (AList.update (tok_value k) v obj)))))
          else Inr (obj, s))"
  by pat_completeness auto


text \<open>
  The loops call \<open>parse_value\<close> and go on from the parser it returns: the recursion
  ends because a successful call moves the cursor forward and leaves the tokens alone.
\<close>

abbreviation "pdom \<equiv> parse_value_parse_list_parse_list_loop_parse_struct_parse_struct_loop_dom"

lemma consume_Inr:
  "consume e s = Inr (t, s1) \<Longrightarrow> s1 = s\<lparr>pos := pos s + 1\<rparr> \<and> pos s < length (tokens s)"
  by (auto simp: consume_def peek_def split: option.splits if_splits)

lemma peek_Some: "peek s = Some t \<Longrightarrow> pos s < length (tokens s)"
  by (simp add: peek_def split: if_splits)

lemma optional_comma_Inr:
  "optional_comma s = Inr s1 \<Longrightarrow>
     tokens s1 = tokens s \<and> pos s \<le> pos s1 \<and> constants s1 = constants s"
  by (auto simp: optional_comma_def split: option.splits if_splits sum.splits dest!: consume_Inr)

lemma progress_dom:
  "pdom (Inl (Inl (fl, s))) \<Longrightarrow> parse_value fl s = Inr (v, s') \<Longrightarrow>
     tokens s' = tokens s \<and> pos s < pos s' \<and> constants s' = constants s"
  "pdom (Inl (Inr (fl, s))) \<Longrightarrow> parse_list fl s = Inr (v, s') \<Longrightarrow>
     tokens s' = tokens s \<and> pos s < pos s' \<and> constants s' = constants s"
  "pdom (Inr (Inl (fl, s, items))) \<Longrightarrow> parse_list_loop fl s items = Inr (vs, s') \<Longrightarrow>
     tokens s' = tokens s \<and> pos s \<le> pos s' \<and> constants s' = constants s"
  "pdom (Inr (Inr (Inl (fl, s)))) \<Longrightarrow> parse_struct fl s = Inr (v, s') \<Longrightarrow>
     tokens s' = tokens s \<and> pos s < pos s' \<and> constants s' = constants s"
  "pdom (Inr (Inr (Inr (fl, s, obj)))) \<Longrightarrow> parse_struct_loop fl s obj = Inr (ob, s') \<Longrightarrow>
     tokens s' = tokens s \<and> pos s \<le> pos s' \<and> constants s' = constants s"
proof (induct fl s and fl s and fl s items and fl s and fl s obj arbitrary: v s' and v s' and vs s' and v s' and ob s'
    rule: parse_value_parse_list_parse_list_loop_parse_struct_parse_struct_loop.pinduct)
  case (1 float s)
  then show ?case
    apply (subst (asm) parse_value.psimps)
    apply assumption
    apply (auto split: option.splits if_splits sum.splits dest!: consume_Inr)
    done
next
  case (2 float s)
  from "2.prems" obtain t s1 items s2 t' where
    c1: "consume (Some LIST) s = Inr (t, s1)" and
    l: "parse_list_loop float s1 [] = Inr (items, s2)" and
    c2: "consume (Some RPAREN) s2 = Inr (t', s')"
    by (auto simp: parse_list.psimps [OF "2.hyps"(1)] split: sum.splits)
  from "2.hyps"(2) [OF c1 refl l] consume_Inr [OF c1] consume_Inr [OF c2]
  show ?case by simp
next
  case (3 float s items)
  show ?case
  proof (cases "peek s")
    case None
    with "3.prems" show ?thesis
      by (simp add: parse_list_loop.psimps [OF "3.hyps"(1)])
  next
    case (Some tok)
    show ?thesis
    proof (cases "tok_type tok = RPAREN")
      case True
      with Some "3.prems" show ?thesis
        by (simp add: parse_list_loop.psimps [OF "3.hyps"(1)])
    next
      case False
      with Some "3.prems" obtain x s1 where
        v: "parse_value float s = Inr (x, s1)" and
        l: "parse_list_loop float s1 (items @ [x]) = Inr (vs, s')"
        by (auto simp: parse_list_loop.psimps [OF "3.hyps"(1)] split: sum.splits)
      from "3.hyps"(2) [OF Some False v] "3.hyps"(3) [OF Some False v refl l]
      show ?thesis by simp
    qed
  qed
next
  case (4 float s)
  from "4.prems" obtain t s1 t' s2 ob s3 t'' where
    c1: "consume (Some STRUCT) s = Inr (t, s1)" and
    c2: "consume (Some LBRACE) s1 = Inr (t', s2)" and
    l: "parse_struct_loop float s2 [] = Inr (ob, s3)" and
    c3: "consume (Some RBRACE) s3 = Inr (t'', s')"
    by (auto simp: parse_struct.psimps [OF "4.hyps"(1)] split: sum.splits)
  from "4.hyps"(2) [OF c1 refl c2 refl l] consume_Inr [OF c1] consume_Inr [OF c2]
    consume_Inr [OF c3]
  show ?case by simp
next
  case (5 float s obj)
  show ?case
  proof (cases "peek s")
    case None
    with "5.prems" show ?thesis
      by (simp add: parse_struct_loop.psimps [OF "5.hyps"(1)])
  next
    case (Some tok)
    show ?thesis
    proof (cases "tok_type tok = RBRACE")
      case True
      with Some "5.prems" show ?thesis
        by (simp add: parse_struct_loop.psimps [OF "5.hyps"(1)])
    next
      case False
      with Some "5.prems" obtain k s1 t s2 x s3 s4 where
        c1: "consume (Some IDENT) s = Inr (k, s1)" and
        c2: "consume (Some EQUAL) s1 = Inr (t, s2)" and
        v: "parse_value float s2 = Inr (x, s3)" and
        oc: "optional_comma s3 = Inr s4" and
        l: "parse_struct_loop float s4 (AList.update (tok_value k) x obj) = Inr (ob, s')"
        by (auto simp: parse_struct_loop.psimps [OF "5.hyps"(1)] split: sum.splits)
      from "5.hyps"(2) [OF Some False c1 refl c2 refl v]
        "5.hyps"(3) [OF Some False c1 refl c2 refl v refl oc l]
        consume_Inr [OF c1] consume_Inr [OF c2] optional_comma_Inr [OF oc]
      show ?thesis by simp
    qed
  qed
qed

lemma parse_total: "All pdom"
proof (rule "parse_value_parse_list_parse_list_loop_parse_struct_parse_struct_loop.termination"
    [of "measure (\<lambda>x. case x of
      Inl (Inl (f, s)) \<Rightarrow> 3 * (length (tokens s) - pos s) + 1
    | Inl (Inr (f, s)) \<Rightarrow> 3 * (length (tokens s) - pos s)
    | Inr (Inl (f, s, i)) \<Rightarrow> 3 * (length (tokens s) - pos s) + 2
    | Inr (Inr (Inl (f, s))) \<Rightarrow> 3 * (length (tokens s) - pos s)
    | Inr (Inr (Inr (f, s, obj))) \<Rightarrow> 3 * (length (tokens s) - pos s) + 2)"], goal_cases)
  case 1 show ?case by simp
next
  case 2 then show ?case by simp
next
  case 3 then show ?case by simp
next
  case 4 then show ?case by (auto dest!: consume_Inr)
next
  case 5 then show ?case by simp
next
  case 6 then show ?case
    by (auto dest!: peek_Some progress_dom(1))
next
  case 7 then show ?case by (auto dest!: consume_Inr)
next
  case 8 then show ?case by (auto dest!: consume_Inr)
next
  case 9 then show ?case
    by (auto dest!: consume_Inr progress_dom(1) optional_comma_Inr)
qed

termination parse_value
  by (rule parse_total)


lemma parse_value_progress:
  "parse_value float s = Inr (v, s') \<Longrightarrow>
     tokens s' = tokens s \<and> pos s < pos s' \<and> constants s' = constants s"
  using progress_dom(1) parse_total by blast

lemma parse_list_loop_progress:
  "parse_list_loop float s items = Inr (vs, s') \<Longrightarrow>
     tokens s' = tokens s \<and> pos s \<le> pos s' \<and> constants s' = constants s"
  using progress_dom(3) parse_total by blast

lemma parse_struct_loop_progress:
  "parse_struct_loop float s obj = Inr (ob, s') \<Longrightarrow>
     tokens s' = tokens s \<and> pos s \<le> pos s' \<and> constants s' = constants s"
  using progress_dom(5) parse_total by blast

declare parse_value.simps [simp del] parse_list.simps [simp del] parse_list_loop.simps [simp del]
  parse_struct.simps [simp del] parse_struct_loop.simps [simp del]

definition parse_set :: "(string \<Rightarrow> 'n) \<Rightarrow> 'n parser \<Rightarrow> error + 'n parser" where
  "parse_set float s =
     (case consume (Some SET) s of
        Inl e \<Rightarrow> Inl e
      | Inr (t, s1) \<Rightarrow>
          (case consume (Some IDENT) s1 of
             Inl e \<Rightarrow> Inl e
           | Inr (name, s2) \<Rightarrow>
               (case consume (Some EQUAL) s2 of
                  Inl e \<Rightarrow> Inl e
                | Inr (t', s3) \<Rightarrow>
                    (case parse_value float s3 of
                       Inl e \<Rightarrow> Inl e
                     | Inr (v, s4) \<Rightarrow>
                         Inr (s4\<lparr>constants := (constants s4)(tok_value name \<mapsto> v)\<rparr>)))))"

lemma parse_set_progress:
  "parse_set float s = Inr s' \<Longrightarrow> tokens s' = tokens s \<and> pos s < pos s'"
  by (auto simp: parse_set_def split: sum.splits dest!: consume_Inr parse_value_progress)

text \<open>
  \<open>parse\<close>: the \<open>while\<close> loop with the parser and the running \<open>result\<close>, which starts as
  \<open>None\<close>.
\<close>

function parse_loop ::
  "(string \<Rightarrow> 'n) \<Rightarrow> 'n parser \<Rightarrow> 'n val option \<Rightarrow> error + 'n val option" where
  "parse_loop float s result =
     (case peek s of
        None \<Rightarrow> Inr result
      | Some tok \<Rightarrow>
          if tok_type tok = SET then
            (case parse_set float s of
               Inl e \<Rightarrow> Inl e
             | Inr s1 \<Rightarrow> parse_loop float s1 result)
          else
            (case parse_value float s of
               Inl e \<Rightarrow> Inl e
             | Inr (v, s1) \<Rightarrow> parse_loop float s1 (Some v)))"
  by pat_completeness auto

lemma parse_loop_total: "All parse_loop_dom"
proof (rule "parse_loop.termination"
    [of "measure (\<lambda>(f, s, r). length (tokens s) - pos s)"], goal_cases)
  case 1 show ?case by simp
next
  case 2 then show ?case by (auto dest!: peek_Some parse_set_progress)
next
  case 3 then show ?case by (auto dest!: peek_Some parse_value_progress)
qed

termination parse_loop
  by (rule parse_loop_total)

declare parse_loop.simps [simp del]

definition parse :: "(string \<Rightarrow> 'n) \<Rightarrow> 'n parser \<Rightarrow> error + 'n val option" where
  "parse float s = parse_loop float s None"

text \<open>
  The three calls of \<open>main\<close> between reading the input and writing the output:
  \<open>remove_comments\<close>, \<open>tokenize\<close> and \<open>Parser(tokens).parse()\<close>.
\<close>

definition main_tree :: "(string \<Rightarrow> 'n) \<Rightarrow> string \<Rightarrow> error + 'n val option" where
  "main_tree float source =
     (case tokenize (remove_comments source) of
        Inl e \<Rightarrow> Inl e
      | Inr toks \<Rightarrow> parse float (Parser toks))"

text \<open>
  The spec's words for the result of \<open>parse\<close>: the values of the top-level expressions
  that are not \<open>set\<close> statements, in the order of the text. \<open>top_level_values\<close> collects
  them by the grammar rule \<open>Program := (SetStmt | Value)*\<close>, with the parser's own
  \<open>parse_set\<close> and \<open>parse_value\<close>; \<open>last_value\<close> is the last of them, or the running
  result when there is none.
\<close>

function top_level_values :: "(string \<Rightarrow> 'n) \<Rightarrow> 'n parser \<Rightarrow> error + 'n val list" where
  "top_level_values float s =
     (case peek s of
        None \<Rightarrow> Inr []
      | Some tok \<Rightarrow>
          if tok_type tok = SET then
            (case parse_set float s of
               Inl e \<Rightarrow> Inl e
             | Inr s1 \<Rightarrow> top_level_values float s1)
          else
            (case parse_value float s of
               Inl e \<Rightarrow> Inl e
             | Inr (v, s1) \<Rightarrow>
                 (case top_level_values float s1 of
                    Inl e \<Rightarrow> Inl e
                  | Inr vs \<Rightarrow> Inr (v # vs))))"
  by pat_completeness auto
termination top_level_values
proof (relation "measure (\<lambda>(f, s). length (tokens s) - pos s)", goal_cases)
  case 1 show ?case by simp
next
  case 2 then show ?case by (auto dest!: peek_Some parse_set_progress)
next
  case 3 then show ?case by (auto dest!: peek_Some parse_value_progress)
qed

declare top_level_values.simps [simp del]

definition last_value :: "'n val option \<Rightarrow> 'n val list \<Rightarrow> 'n val option" where
  "last_value result vs = (if vs = [] then result else Some (last vs))"

text \<open>
  The spec's words for a struct literal: its entries \<open>key = value\<close>, in the order of the
  text. \<open>struct_entries\<close> collects them by the grammar rule
  \<open>(Ident '=' Value (',')?)*\<close>, with the parser's own \<open>consume\<close>, \<open>parse_value\<close> and
  \<open>optional_comma\<close>, up to a \<open>}\<close> or the end of the tokens; \<open>entries_dict\<close> assigns them
  one after the other to a dict.
\<close>

function struct_entries ::
  "(string \<Rightarrow> 'n) \<Rightarrow> 'n parser \<Rightarrow> error + ((string \<times> 'n val) list \<times> 'n parser)" where
  "struct_entries float s =
     (case peek s of
        None \<Rightarrow> Inr ([], s)
      | Some tok \<Rightarrow>
          if tok_type tok \<noteq> RBRACE then
            (case consume (Some IDENT) s of
               Inl e \<Rightarrow> Inl e
             | Inr (k, s1) \<Rightarrow>
                 (case consume (Some EQUAL) s1 of
                    Inl e \<Rightarrow> Inl e
                  | Inr (t, s2) \<Rightarrow>
                      (case parse_value float s2 of
                         Inl e \<Rightarrow> Inl e
                       | Inr (v, s3) \<Rightarrow>
                           (case optional_comma s3 of
                              Inl e \<Rightarrow> Inl e
                            | Inr s4 \<Rightarrow>
                                (case struct_entries float s4 of
                                   Inl e \<Rightarrow> Inl e
                                 | Inr (es, s5) \<Rightarrow> Inr ((tok_value k, v) # es, s5))))))
          else Inr ([], s))"
  by pat_completeness auto
termination struct_entries
proof (relation "measure (\<lambda>(f, s). length (tokens s) - pos s)", goal_cases)
  case 1 show ?case by simp
next
  case 2 then show ?case
    by (auto dest!: consume_Inr parse_value_progress optional_comma_Inr)
qed

declare struct_entries.simps [simp del]

definition entries_dict ::
  "(string \<times> 'n val) list \<Rightarrow> (string \<times> 'n val) list \<Rightarrow> (string \<times> 'n val) list" where
  "entries_dict es obj = fold (\<lambda>(k, v). AList.update k v) es obj"

text \<open>
  The spec's grammar with the constant table as an argument, to compare the parser with.
  The cursor is a position in the token sequence; \<open>token_at\<close> reads the token there and
  \<open>expect\<close> takes a token of a given kind. \<open>eval_value\<close> is the rule
  \<open>Value := Number | String | ConstRef | List | Struct\<close>: a reference is looked up in the
  table it is given, and the items of a list and the entries of a struct are evaluated in
  that same table. \<open>eval_set\<close> is \<open>SetStmt := 'set' Ident '=' Value\<close>: the value is evaluated
  in the table before the statement and the result is that table with the name bound to
  the value. \<open>eval_program\<close> is \<open>Program := (SetStmt | Value)*\<close>: a value statement leaves
  the table as it is and becomes the running result, a \<open>set\<close> statement passes its new
  table on and leaves the running result as it is. So the table at a reference is, by
  construction, the bindings of the \<open>set\<close> statements before it in the text, each name
  with its latest value.
\<close>

definition token_at :: "token list \<Rightarrow> nat \<Rightarrow> token option" where
  "token_at toks p = (if p < length toks then Some (toks ! p) else None)"

definition expect :: "ttype \<Rightarrow> token list \<Rightarrow> nat \<Rightarrow> error + (token \<times> nat)" where
  "expect e toks p =
     (case token_at toks p of
        None \<Rightarrow> Inl (SyntaxError ''Unexpected end of input'')
      | Some tok \<Rightarrow>
          if tok_type tok \<noteq> e
          then Inl (SyntaxError (''Expected '' @ type_name e @ '', got '' @ type_name (tok_type tok)))
          else Inr (tok, p + 1))"

definition skip_comma :: "token list \<Rightarrow> nat \<Rightarrow> nat" where
  "skip_comma toks p =
     (case token_at toks p of
        None \<Rightarrow> p
      | Some tok \<Rightarrow> if tok_type tok = COMMA then p + 1 else p)"

function eval_value ::
    "(string \<Rightarrow> 'n) \<Rightarrow> (string \<rightharpoonup> 'n val) \<Rightarrow> token list \<Rightarrow> nat \<Rightarrow> error + ('n val \<times> nat)"
  and eval_list_items ::
    "(string \<Rightarrow> 'n) \<Rightarrow> (string \<rightharpoonup> 'n val) \<Rightarrow> token list \<Rightarrow> nat \<Rightarrow> 'n val list \<Rightarrow>
      error + ('n val list \<times> nat)"
  and eval_struct_entries ::
    "(string \<Rightarrow> 'n) \<Rightarrow> (string \<rightharpoonup> 'n val) \<Rightarrow> token list \<Rightarrow> nat \<Rightarrow> (string \<times> 'n val) list \<Rightarrow>
      error + ((string \<times> 'n val) list \<times> nat)"
where
  "eval_value float table toks p =
     (case token_at toks p of
        None \<Rightarrow> Inl (AttributeError no_attribute_type)
      | Some tok \<Rightarrow>
          if tok_type tok = NUMBER then Inr (VNumber (float (tok_value tok)), p + 1)
          else if tok_type tok = STRING then Inr (VText (strip (CHR 0x27) (tok_value tok)), p + 1)
          else if tok_type tok = CONST' then
            (case table (strip CHR ''|'' (tok_value tok)) of
               None \<Rightarrow> Inl (SyntaxError (''Unknown constant '' @ strip CHR ''|'' (tok_value tok)))
             | Some v \<Rightarrow> Inr (v, p + 1))
          else if tok_type tok = LIST then
            (case eval_list_items float table toks (p + 1) [] of
               Inl e \<Rightarrow> Inl e
             | Inr (items, q) \<Rightarrow>
                 (case expect RPAREN toks q of
                    Inl e \<Rightarrow> Inl e
                  | Inr (t, r) \<Rightarrow> Inr (VList items, r)))
          else if tok_type tok = STRUCT then
            (case expect LBRACE toks (p + 1) of
               Inl e \<Rightarrow> Inl e
             | Inr (t, q) \<Rightarrow>
                 (case eval_struct_entries float table toks q [] of
                    Inl e \<Rightarrow> Inl e
                  | Inr (obj, r) \<Rightarrow>
                      (case expect RBRACE toks r of
                         Inl e \<Rightarrow> Inl e
                       | Inr (t', u) \<Rightarrow> Inr (VStruct obj, u))))
          else Inl (SyntaxError (''Unexpected token '' @ type_name (tok_type tok))))"
| "eval_list_items float table toks p items =
     (case token_at toks p of
        None \<Rightarrow> Inr (items, p)
      | Some tok \<Rightarrow>
          if tok_type tok \<noteq> RPAREN then
            (case eval_value float table toks p of
               Inl e \<Rightarrow> Inl e
             | Inr (v, q) \<Rightarrow> eval_list_items float table toks q (items @ [v]))
          else Inr (items, p))"
| "eval_struct_entries float table toks p obj =
     (case token_at toks p of
        None \<Rightarrow> Inr (obj, p)
      | Some tok \<Rightarrow>
          if tok_type tok \<noteq> RBRACE then
            (case expect IDENT toks p of
               Inl e \<Rightarrow> Inl e
             | Inr (k, q) \<Rightarrow>
                 (case expect EQUAL toks q of
                    Inl e \<Rightarrow> Inl e
                  | Inr (t, r) \<Rightarrow>
                      (case eval_value float table toks r of
                         Inl e \<Rightarrow> Inl e
                       | Inr (v, u) \<Rightarrow>
                           eval_struct_entries float table toks (skip_comma toks u)
                             (AList.update (tok_value k) v obj))))
          else Inr (obj, p))"
  by pat_completeness auto

abbreviation "edom \<equiv> eval_value_eval_list_items_eval_struct_entries_dom"

lemma expect_Inr: "expect e toks p = Inr (t, q) \<Longrightarrow> q = p + 1 \<and> p < length toks"
  by (auto simp: expect_def token_at_def split: option.splits if_splits)

lemma skip_comma_le: "p \<le> skip_comma toks p"
  by (simp add: skip_comma_def split: option.splits)

lemma token_at_Some: "token_at toks p = Some t \<Longrightarrow> p < length toks"
  by (simp add: token_at_def split: if_splits)

lemma eval_progress_dom:
  "edom (Inl (float, table, toks, p)) \<Longrightarrow> eval_value float table toks p = Inr (v, q) \<Longrightarrow> p < q"
  "edom (Inr (Inl (float, table, toks, p, items))) \<Longrightarrow>
     eval_list_items float table toks p items = Inr (vs, q) \<Longrightarrow> p \<le> q"
  "edom (Inr (Inr (float, table, toks, p, obj))) \<Longrightarrow>
     eval_struct_entries float table toks p obj = Inr (ob, q) \<Longrightarrow> p \<le> q"
proof (induct float table toks p and float table toks p items and float table toks p obj
    arbitrary: v q and vs q and ob q
    rule: eval_value_eval_list_items_eval_struct_entries.pinduct)
  case (1 float table toks p)
  note ps = eval_value.psimps [OF "1.hyps"(1)]
  show ?case
  proof (cases "token_at toks p")
    case None
    with "1.prems" show ?thesis by (simp add: ps)
  next
    case (Some tok)
    consider "tok_type tok = NUMBER \<or> tok_type tok = STRING \<or> tok_type tok = CONST'"
      | "tok_type tok = LIST" | "tok_type tok = STRUCT"
      | "tok_type tok \<notin> {NUMBER, STRING, CONST', LIST, STRUCT}" by auto
    then show ?thesis
    proof cases
      case 1
      with Some "1.prems" show ?thesis
        by (auto simp: ps split: option.splits if_splits)
    next
      case 2
      with Some "1.prems" obtain items q1 t where
        l: "eval_list_items float table toks (p + 1) [] = Inr (items, q1)" and
        e: "expect RPAREN toks q1 = Inr (t, q)"
        by (auto simp: ps split: sum.splits)
      from 2 have n: "tok_type tok \<noteq> NUMBER" "tok_type tok \<noteq> STRING" "tok_type tok \<noteq> CONST'"
        by simp_all
      from "1.hyps"(2) [OF Some n 2 l] expect_Inr [OF e] show ?thesis by simp
    next
      case 3
      with Some "1.prems" obtain t q1 ob q2 t' where
        e1: "expect LBRACE toks (p + 1) = Inr (t, q1)" and
        l: "eval_struct_entries float table toks q1 [] = Inr (ob, q2)" and
        e2: "expect RBRACE toks q2 = Inr (t', q)"
        by (auto simp: ps split: sum.splits)
      from 3 have n: "tok_type tok \<noteq> NUMBER" "tok_type tok \<noteq> STRING" "tok_type tok \<noteq> CONST'"
        "tok_type tok \<noteq> LIST" by simp_all
      from "1.hyps"(3) [OF Some n 3 e1 refl l] expect_Inr [OF e1] expect_Inr [OF e2]
      show ?thesis by simp
    next
      case 4
      with Some "1.prems" show ?thesis by (simp add: ps)
    qed
  qed
next
  case (2 float table toks p items)
  note ps = eval_list_items.psimps [OF "2.hyps"(1)]
  show ?case
  proof (cases "token_at toks p")
    case None
    with "2.prems" show ?thesis by (simp add: ps)
  next
    case (Some tok)
    show ?thesis
    proof (cases "tok_type tok = RPAREN")
      case True
      with Some "2.prems" show ?thesis by (simp add: ps)
    next
      case False
      with Some "2.prems" obtain x q1 where
        v: "eval_value float table toks p = Inr (x, q1)" and
        l: "eval_list_items float table toks q1 (items @ [x]) = Inr (vs, q)"
        by (auto simp: ps split: sum.splits)
      from "2.hyps"(2) [OF Some False v] "2.hyps"(3) [OF Some False v refl l]
      show ?thesis by simp
    qed
  qed
next
  case (3 float table toks p obj)
  note ps = eval_struct_entries.psimps [OF "3.hyps"(1)]
  show ?case
  proof (cases "token_at toks p")
    case None
    with "3.prems" show ?thesis by (simp add: ps)
  next
    case (Some tok)
    show ?thesis
    proof (cases "tok_type tok = RBRACE")
      case True
      with Some "3.prems" show ?thesis by (simp add: ps)
    next
      case False
      with Some "3.prems" obtain k q1 t q2 x u where
        e1: "expect IDENT toks p = Inr (k, q1)" and
        e2: "expect EQUAL toks q1 = Inr (t, q2)" and
        v: "eval_value float table toks q2 = Inr (x, u)" and
        l: "eval_struct_entries float table toks (skip_comma toks u)
              (AList.update (tok_value k) x obj) = Inr (ob, q)"
        by (auto simp: ps split: sum.splits)
      from "3.hyps"(2) [OF Some False e1 refl e2 refl v]
        "3.hyps"(3) [OF Some False e1 refl e2 refl v refl l]
        expect_Inr [OF e1] expect_Inr [OF e2] skip_comma_le [of u toks]
      show ?thesis by simp
    qed
  qed
qed

lemma eval_total: "All edom"
proof (rule "eval_value_eval_list_items_eval_struct_entries.termination"
    [of "measure (\<lambda>x. case x of
      Inl (f, c, toks, p) \<Rightarrow> 2 * (length toks - p) + 1
    | Inr (Inl (f, c, toks, p, i)) \<Rightarrow> 2 * (length toks - p) + 2
    | Inr (Inr (f, c, toks, p, obj)) \<Rightarrow> 2 * (length toks - p) + 2)"], goal_cases)
  case 1 show ?case by simp
next
  case 2 then show ?case by (auto dest!: token_at_Some)
next
  case 3 then show ?case by (auto dest!: token_at_Some expect_Inr)
next
  case 4 then show ?case by simp
next
  case 5 then show ?case by (auto dest!: token_at_Some eval_progress_dom(1))
next
  case 6 then show ?case by (auto dest!: expect_Inr)
next
  case (7 float table toks p obj x2 b x y ba xa ya bb xaa yb)
  then show ?case
    using skip_comma_le [of yb toks]
    by (auto dest!: expect_Inr eval_progress_dom(1))
qed

termination eval_value
  by (rule eval_total)


declare eval_value.simps [simp del] eval_list_items.simps [simp del]
  eval_struct_entries.simps [simp del]






text \<open>\<open>resume\<close> puts the cursor of a result back into the parser.\<close>

definition resume :: "'n parser \<Rightarrow> error + ('a \<times> nat) \<Rightarrow> error + ('a \<times> 'n parser)" where
  "resume s r = (case r of Inl e \<Rightarrow> Inl e | Inr (v, q) \<Rightarrow> Inr (v, s\<lparr>pos := q\<rparr>))"

lemma resume_simps [simp]:
  "resume s (Inl e) = Inl e"
  "resume s (Inr (v, q)) = Inr (v, s\<lparr>pos := q\<rparr>)"
  by (simp_all add: resume_def)

lemma resume_pos [simp]: "resume (s\<lparr>pos := q\<rparr>) r = resume s r"
  by (simp add: resume_def split: sum.splits)






section \<open>Evaluation\<close>

lemma main_tree_tokens:
  "tokenize (remove_comments source) = Inr toks \<Longrightarrow>
   main_tree float source = parse float (Parser toks)"
  by (simp add: main_tree_def)

lemmas parser_simps =
  parse_def Parser_def parse_loop.simps parse_set_def parse_value.simps parse_list.simps
  parse_list_loop.simps parse_struct.simps parse_struct_loop.simps optional_comma_def
  peek_def consume_def strip_def

section \<open>End of input where a value is required\<close>

lemma parse_value_end_of_input:
  "peek s = None \<Longrightarrow> parse_value float s = Inl (AttributeError no_attribute_type)"
  by (simp add: parse_value.simps)

text \<open>
  C1. The claim: every failure of parsing is a \<open>SyntaxError\<close>, and where the cursor is
  exhausted and a token is required, as after \<open>set x =\<close> or \<open>struct{a=\<close>, the failure is
  the \<open>SyntaxError\<close> "Unexpected end of input". The code does otherwise:
  \<open>parse_value\<close> reads \<open>tok.type\<close> without testing \<open>tok\<close>, while \<open>consume\<close> and the loops
  test it, so on both inputs the failure is an \<open>AttributeError\<close>, which \<open>main\<close> does not
  catch.
\<close>

theorem C1_end_of_input_is_AttributeError:
  "main_tree float ''set x ='' = Inl (AttributeError no_attribute_type) \<and>
   main_tree float ''struct{a='' = Inl (AttributeError no_attribute_type)"
proof -
  have t1: "tokenize (remove_comments ''set x ='') =
      Inr [Token SET ''set'', Token IDENT ''x'', Token EQUAL ''='']"
    by code_simp
  have t2: "tokenize (remove_comments ''struct{a='') =
      Inr [Token STRUCT ''struct'', Token LBRACE ''{'', Token IDENT ''a'', Token EQUAL ''='']"
    by code_simp
  show ?thesis
    unfolding main_tree_tokens [OF t1] main_tree_tokens [OF t2]
    by (simp add: parser_simps)
qed

section \<open>Decimal numbers\<close>

lemma takeWhile_all: "\<forall>x\<in>set xs. P x \<Longrightarrow> \<not> P y \<Longrightarrow> takeWhile P (xs @ y # ys) = xs"
  by (induction xs) auto

lemma dropWhile_all: "\<forall>x\<in>set xs. P x \<Longrightarrow> \<not> P y \<Longrightarrow> dropWhile P (xs @ y # ys) = y # ys"
  by (induction xs) auto

lemma match_NUMBER_decimal:
  assumes "\<forall>c\<in>set a. is_digit c" "\<forall>c\<in>set b. is_digit c" "b \<noteq> []"
  shows "match_NUMBER (a @ ''.'' @ b) = Some (length (a @ ''.'' @ b))"
proof -
  have nd: "\<not> is_digit CHR ''.''" by (simp add: is_digit_def code_def)
  have "dropWhile is_digit (a @ CHR ''.'' # b) = CHR ''.'' # b"
    using assms(1) nd by (rule dropWhile_all)
  moreover have "takeWhile is_digit (a @ CHR ''.'' # b) = a"
    using assms(1) nd by (rule takeWhile_all)
  moreover have "takeWhile is_digit b = b"
    using assms(2) by simp
  ultimately show ?thesis using assms(3)
    by (simp only: match_NUMBER_def append_Cons append_Nil list.case if_True simp_thms length_append list.size) simp
qed

lemma show_nat_0: "show_nat 0 = ''0''"
  by code_simp

lemma remove_comments_no_dash: "CHR ''-'' \<notin> set s \<Longrightarrow> remove_comments s = s"
  by (induction s) auto

lemma digit_not_dash: "is_digit c \<Longrightarrow> c \<noteq> CHR ''-'' "
  by (auto simp: is_digit_def code_def)

lemma first_match_digit:
  assumes "is_digit c" "\<forall>x\<in>set r. is_digit x"
  shows "first_match TOKEN_REGEX (c # r) = None"
proof -
  have "dropWhile is_digit (c # r) = []" using assms by simp
  then have "match_NUMBER (c # r) = None" by (simp only: match_NUMBER_def list.case)
  moreover have "match_STRING (c # r) = None" using assms(1) by (auto simp: match_STRING_def is_digit_def code_def)
  moreover have "match_keyword ''set'' (c # r) = None" using assms(1) by (auto simp: match_keyword_def is_digit_def code_def)
  moreover have "match_keyword ''struct'' (c # r) = None" using assms(1) by (auto simp: match_keyword_def is_digit_def code_def)
  moreover have "match_keyword ''(list'' (c # r) = None" using assms(1) by (auto simp: match_keyword_def is_digit_def code_def)
  moreover have "match_CONST (c # r) = None" using assms(1) by (auto simp: match_CONST_def is_digit_def code_def split: list.splits)
  moreover have "match_IDENT (c # r) = None" using assms(1) by (auto simp: match_IDENT_def is_digit_def is_lower_def)
  moreover have "match_char x (c # r) = None" if "\<not> is_digit x" for x using assms(1) that by (auto simp: match_char_def)
  moreover have "match_SKIP (c # r) = None" using assms(1) by (auto simp: match_SKIP_def is_space_def is_digit_def code_def)
  ultimately show ?thesis
    by (simp add: TOKEN_REGEX_def is_digit_def code_def)
qed


text \<open>
  C6. A text \<open>d\<close> that matches \<open>\d*\.\d+\<close> (digits \<open>a\<close>, a point, digits \<open>b\<close> with at least
  one digit) lexes to the single token \<open>NUMBER\<close> with the text \<open>d\<close>, and that token parses
  to the number \<open>float d\<close>; so does the text through \<open>main\<close>. A text \<open>n\<close> of digits only
  matches no pattern of the table, and \<open>tokenize\<close> fails on it with the \<open>SyntaxError\<close> of
  position 0.
\<close>

theorem C6_decimal_literals:
  assumes "\<forall>c\<in>set a. is_digit c" and "\<forall>c\<in>set b. is_digit c" and "b \<noteq> []"
    and "\<forall>c\<in>set n. is_digit c" and "n \<noteq> []"
  shows "tokenize (a @ ''.'' @ b) = Inr [Token NUMBER (a @ ''.'' @ b)] \<and>
    parse float (Parser [Token NUMBER (a @ ''.'' @ b)]) = Inr (Some (VNumber (float (a @ ''.'' @ b)))) \<and>
    main_tree float (a @ ''.'' @ b) = Inr (Some (VNumber (float (a @ ''.'' @ b)))) \<and>
    first_match TOKEN_REGEX n = None \<and>
    tokenize n = Inl (SyntaxError ''Unexpected character at position 0'')"
proof -
  let ?d = "a @ ''.'' @ b"
  have m: "first_match TOKEN_REGEX ?d = Some (NUMBER, length ?d)"
    using match_NUMBER_decimal [OF assms(1-3)] by (simp add: TOKEN_REGEX_def)
  have t: "tokenize ?d = Inr [Token NUMBER ?d]"
    unfolding tokenize_def
    apply (subst tokenize_loop.simps)
    apply (simp only: drop_0 m)
    apply (subst tokenize_loop.simps)
    apply simp
    done
  have p: "parse float (Parser [Token NUMBER ?d]) = Inr (Some (VNumber (float ?d)))"
    by (simp add: parser_simps)
  have "CHR ''-'' \<notin> set ?d"
    using assms(1,2) by (auto dest: digit_not_dash)
  then have r: "remove_comments ?d = ?d"
    by (rule remove_comments_no_dash)
  have mt: "main_tree float ?d = Inr (Some (VNumber (float ?d)))"
    by (simp only: main_tree_def r t p sum.case)
  obtain c r' where n: "n = c # r'" using assms(5) by (cases n) auto
  with assms(4) have fm: "first_match TOKEN_REGEX n = None"
    by (simp add: first_match_digit)
  have tn: "tokenize n = Inl (SyntaxError ''Unexpected character at position 0'')"
    unfolding tokenize_def
    apply (subst tokenize_loop.simps)
    using assms(5) apply (simp add: fm show_nat_0)
    done
  from t p mt fm tn show ?thesis by blast
qed


theorem C6_decimal_literals_witness:
  "list_all is_digit ''3'' \<and> list_all is_digit ''14'' \<and>
   tokenize ''3.14'' = Inr [Token NUMBER ''3.14''] \<and>
   parse (\<lambda>d. d) (Parser [Token NUMBER ''3.14'']) = Inr (Some (VNumber ''3.14'')) \<and>
   main_tree (\<lambda>d. d) ''3.14'' = Inr (Some (VNumber ''3.14'')) \<and>
   first_match TOKEN_REGEX ''3'' = None \<and>
   tokenize ''3'' = Inl (SyntaxError ''Unexpected character at position 0'')"
  using C6_decimal_literals [of "''3''" "''14''" "''3''" "\<lambda>d. d"]
  by (simp add: is_digit_def code_def)

section \<open>Characters that start no token\<close>

lemma lexer_at_loop: "lexer_at src p toks \<Longrightarrow> tokenize src = tokenize_loop src p toks"
proof (induction rule: lexer_at.induct)
  case start
  show ?case by (simp add: tokenize_def)
next
  case (step p toks ttype n)
  then show ?case by (simp add: tokenize_loop.simps [of src p])
qed

text \<open>
  C8, as amended. When the loop of \<open>tokenize\<close> comes to a position \<open>p\<close> inside the text at
  which no pattern matches, \<open>tokenize\<close> fails with the \<open>SyntaxError\<close> whose message gives
  \<open>p\<close>, and returns no token. Every position the loop came to before \<open>p\<close> had a match, so
  \<open>p\<close> is the first such position among those the loop comes to.
\<close>

theorem C8_unexpected_character:
  assumes "lexer_at src p toks" and "p < length src"
    and "first_match TOKEN_REGEX (drop p src) = None"
  shows "tokenize src = Inl (SyntaxError (''Unexpected character at position '' @ show_nat p))"
  using assms by (simp add: lexer_at_loop tokenize_loop.simps [of src p])

theorem C8_unexpected_character_witness:
  "lexer_at ''a @'' 2 [Token IDENT ''a''] \<and> (2::nat) < length ''a @'' \<and>
   first_match TOKEN_REGEX (drop 2 ''a @'') = None \<and>
   tokenize ''a @'' = Inl (SyntaxError ''Unexpected character at position 2'')"
proof -
  have m0: "first_match TOKEN_REGEX (drop 0 ''a @'') = Some (IDENT, 1)" by code_simp
  have m1: "first_match TOKEN_REGEX (drop 1 ''a @'') = Some (SKIP, 1)" by code_simp
  have m2: "first_match TOKEN_REGEX (drop 2 ''a @'') = None" by code_simp
  have s2: "show_nat 2 = ''2''" by code_simp
  have "lexer_at ''a @'' (0 + 1) (if IDENT \<noteq> SKIP then [] @ [Token IDENT (take 1 (drop 0 ''a @''))] else [])"
    by (rule lexer_at.step [OF lexer_at.start _ m0]) simp
  then have l1: "lexer_at ''a @'' 1 [Token IDENT ''a'']" by simp
  have "lexer_at ''a @'' (1 + 1) (if SKIP \<noteq> SKIP then [Token IDENT ''a''] @ [Token SKIP (take 1 (drop 1 ''a @''))] else [Token IDENT ''a''])"
    by (rule lexer_at.step [OF l1 _ m1]) simp
  then have l2: "lexer_at ''a @'' 2 [Token IDENT ''a'']" by (simp add: numeral_2_eq_2)
  have l: "(2::nat) < length ''a @''" by simp
  from C8_unexpected_character [OF l2 l m2] l2 l m2 s2 show ?thesis by simp
qed


text \<open>
  C8 as stated speaks of any position of the text. Inside a string literal the loop never
  tries the patterns: in the text \<open>'@'\<close> no pattern matches at position 1, and \<open>tokenize\<close>
  returns the one \<open>STRING\<close> token.
\<close>

theorem C8_counterexample:
  "first_match TOKEN_REGEX (drop 1 (CHR 0x27 # ''@'' @ [CHR 0x27])) = None \<and>
   tokenize (CHR 0x27 # ''@'' @ [CHR 0x27]) = Inr [Token STRING (CHR 0x27 # ''@'' @ [CHR 0x27])]"
  by code_simp

section \<open>The order of the patterns\<close>

lemma first_match_first:
  "first_match ps s = Some (ttype, n) \<longleftrightarrow>
     (\<exists>i<length ps. fst (ps ! i) = ttype \<and> snd (ps ! i) s = Some n \<and>
        (\<forall>j<i. snd (ps ! j) s = None))"
proof (induction ps)
  case Nil
  show ?case by simp
next
  case (Cons a ps)
  obtain ty m where a: "a = (ty, m)" by (cases a)
  show ?case
  proof (cases "m s")
    case None
    have "(\<exists>i<length (a # ps). fst ((a # ps) ! i) = ttype \<and> snd ((a # ps) ! i) s = Some n \<and>
        (\<forall>j<i. snd ((a # ps) ! j) s = None)) \<longleftrightarrow>
      (\<exists>i<length ps. fst (ps ! i) = ttype \<and> snd (ps ! i) s = Some n \<and>
        (\<forall>j<i. snd (ps ! j) s = None))" (is "?L \<longleftrightarrow> ?R")
    proof
      assume ?L
      then obtain i where i: "i < length (a # ps)" "fst ((a # ps) ! i) = ttype"
        "snd ((a # ps) ! i) s = Some n" "\<forall>j<i. snd ((a # ps) ! j) s = None" by blast
      from i(3) None a obtain k where k: "i = Suc k" by (cases i) auto
      with i have "k < length ps" "fst (ps ! k) = ttype" "snd (ps ! k) s = Some n" by auto
      moreover have "\<forall>j<k. snd (ps ! j) s = None"
      proof (intro allI impI)
        fix j assume "j < k"
        then have "Suc j < i" using k by simp
        with i(4) have "snd ((a # ps) ! Suc j) s = None" by blast
        then show "snd (ps ! j) s = None" by simp
      qed
      ultimately show ?R by blast
    next
      assume ?R
      then obtain k where k: "k < length ps" "fst (ps ! k) = ttype"
        "snd (ps ! k) s = Some n" "\<forall>j<k. snd (ps ! j) s = None" by blast
      have "\<forall>j<Suc k. snd ((a # ps) ! j) s = None"
      proof (intro allI impI)
        fix j assume "j < Suc k"
        then show "snd ((a # ps) ! j) s = None"
          using k(4) None a by (cases j) auto
      qed
      with k(1-3) show ?L by (intro exI [of _ "Suc k"]) simp
    qed
    with None a Cons.IH show ?thesis by simp
  next
    case (Some k)
    have "(\<exists>i<length (a # ps). fst ((a # ps) ! i) = ttype \<and> snd ((a # ps) ! i) s = Some n \<and>
        (\<forall>j<i. snd ((a # ps) ! j) s = None)) \<longleftrightarrow> ty = ttype \<and> k = n" (is "?L \<longleftrightarrow> ?R")
    proof
      assume ?L
      then obtain i where i: "i < length (a # ps)" "fst ((a # ps) ! i) = ttype"
        "snd ((a # ps) ! i) s = Some n" "\<forall>j<i. snd ((a # ps) ! j) s = None" by blast
      have "i = 0"
      proof (rule ccontr)
        assume "i \<noteq> 0"
        then have "0 < i" by simp
        with i(4) have "snd ((a # ps) ! 0) s = None" by blast
        with Some a show False by simp
      qed
      with i Some a show ?R by simp
    next
      assume ?R
      with Some a show ?L by (intro exI [of _ 0]) simp
    qed
    with Some a show ?thesis by auto
  qed
qed


lemma ident_char_word: "is_ident_char c \<Longrightarrow> is_word c"
  by (auto simp: is_ident_char_def is_lower_def is_word_def code_def)

lemma word_end_takeWhile: "word_end r \<Longrightarrow> takeWhile is_ident_char r = []"
  by (cases r) (auto simp: word_end_def dest: ident_char_word)

lemma keyword_matches:
  assumes "word_end r"
  shows "first_match TOKEN_REGEX (''(list'' @ r) = Some (LIST, 5)"
    and "first_match TOKEN_REGEX (''set'' @ r) = Some (SET, 3)"
    and "first_match TOKEN_REGEX (''struct'' @ r) = Some (STRUCT, 6)"
    and "match_char CHR ''('' (''(list'' @ r) = Some 1"
    and "match_IDENT (''set'' @ r) = Some 3"
    and "match_IDENT (''struct'' @ r) = Some 6"
proof -
  have nd: "\<not> is_digit CHR ''s''" "\<not> is_digit CHR ''(''" "is_lower CHR ''s''"
    "is_ident_char CHR ''e''" "is_ident_char CHR ''t''" "is_ident_char CHR ''r''"
    "is_ident_char CHR ''u''" "is_ident_char CHR ''c''"
    by (simp_all add: is_digit_def is_lower_def is_ident_char_def code_def)
  show "first_match TOKEN_REGEX (''(list'' @ r) = Some (LIST, 5)"
    using assms nd by (simp add: TOKEN_REGEX_def match_NUMBER_def match_STRING_def match_keyword_def)
  show "first_match TOKEN_REGEX (''set'' @ r) = Some (SET, 3)"
    using assms nd by (simp add: TOKEN_REGEX_def match_NUMBER_def match_STRING_def match_keyword_def)
  show "first_match TOKEN_REGEX (''struct'' @ r) = Some (STRUCT, 6)"
    using assms nd by (simp add: TOKEN_REGEX_def match_NUMBER_def match_STRING_def match_keyword_def)
  show "match_char CHR ''('' (''(list'' @ r) = Some 1"
    by (simp add: match_char_def)
  show "match_IDENT (''set'' @ r) = Some 3"
    using nd word_end_takeWhile [OF assms] by (simp add: match_IDENT_def)
  show "match_IDENT (''struct'' @ r) = Some 6"
    using nd word_end_takeWhile [OF assms] by (simp add: match_IDENT_def)
qed

text \<open>
  C5. The table is in the order Number, String, Set, Struct, List, ConstRef, Ident, the
  single characters, whitespace. For any table, \<open>first_match\<close> returns the match of the
  first pattern that matches, whatever the later patterns match and however long; the loop
  of \<open>tokenize\<close> takes that match. So \<open>(list\<close>, \<open>set\<close> and \<open>struct\<close> before a word boundary
  lex as \<open>LIST\<close>, \<open>SET\<close> and \<open>STRUCT\<close>, although \<open>(\<close> matches the first and the identifier
  pattern matches the other two.
\<close>

theorem C5_first_match_priority:
  "map fst TOKEN_REGEX =
     [NUMBER, STRING, SET, STRUCT, LIST, CONST', IDENT, LBRACE, RBRACE, LPAREN, RPAREN,
      EQUAL, COMMA, SKIP] \<and>
   (first_match ps s = Some (ttype, n) \<longleftrightarrow>
      (\<exists>i<length ps. fst (ps ! i) = ttype \<and> snd (ps ! i) s = Some n \<and>
         (\<forall>j<i. snd (ps ! j) s = None))) \<and>
   (p < length src \<longrightarrow> first_match TOKEN_REGEX (drop p src) = Some (ttype, n) \<longrightarrow>
      tokenize_loop src p toks =
        tokenize_loop src (p + n)
          (if ttype \<noteq> SKIP then toks @ [Token ttype (take n (drop p src))] else toks)) \<and>
   (word_end r \<longrightarrow>
      first_match TOKEN_REGEX (''(list'' @ r) = Some (LIST, 5) \<and>
      match_char CHR ''('' (''(list'' @ r) = Some 1 \<and>
      first_match TOKEN_REGEX (''set'' @ r) = Some (SET, 3) \<and>
      match_IDENT (''set'' @ r) = Some 3 \<and>
      first_match TOKEN_REGEX (''struct'' @ r) = Some (STRUCT, 6) \<and>
      match_IDENT (''struct'' @ r) = Some 6)"
proof (intro conjI impI)
  show "map fst TOKEN_REGEX =
     [NUMBER, STRING, SET, STRUCT, LIST, CONST', IDENT, LBRACE, RBRACE, LPAREN, RPAREN,
      EQUAL, COMMA, SKIP]"
    by (simp add: TOKEN_REGEX_def)
  show "first_match ps s = Some (ttype, n) \<longleftrightarrow>
      (\<exists>i<length ps. fst (ps ! i) = ttype \<and> snd (ps ! i) s = Some n \<and>
         (\<forall>j<i. snd (ps ! j) s = None))"
    by (rule first_match_first)
  show "tokenize_loop src p toks =
        tokenize_loop src (p + n)
          (if ttype \<noteq> SKIP then toks @ [Token ttype (take n (drop p src))] else toks)"
    if "p < length src" and "first_match TOKEN_REGEX (drop p src) = Some (ttype, n)"
    using that by (simp add: tokenize_loop.simps [of src p])
qed (rule keyword_matches, assumption)+

theorem C5_first_match_priority_witness:
  "word_end '' 1.0)'' \<and>
   first_match TOKEN_REGEX ''(list 1.0)'' = Some (LIST, 5) \<and>
   match_char CHR ''('' ''(list 1.0)'' = Some 1 \<and>
   tokenize_loop ''(list 1.0)'' 0 [] = tokenize_loop ''(list 1.0)'' 5 [Token LIST ''(list''] \<and>
   tokenize ''(list 1.0)'' = Inr [Token LIST ''(list'', Token NUMBER ''1.0'', Token RPAREN '')''] \<and>
   tokenize ''set x'' = Inr [Token SET ''set'', Token IDENT ''x''] \<and>
   tokenize ''settle'' = Inr [Token IDENT ''settle'']"
proof -
  have w: "word_end '' 1.0)''"
    by (simp add: word_end_def is_word_def code_def)
  have l: "(0::nat) < length ''(list 1.0)''" by simp
  note c = C5_first_match_priority [where r = "'' 1.0)''" and src = "''(list 1.0)''" and p = 0
      and ttype = LIST and n = 5 and toks = "[]"]
  from c w have m: "first_match TOKEN_REGEX ''(list 1.0)'' = Some (LIST, 5)"
    and mc: "match_char CHR ''('' ''(list 1.0)'' = Some 1" by simp_all
  from c l m have
    "tokenize_loop ''(list 1.0)'' 0 [] = tokenize_loop ''(list 1.0)'' 5 [Token LIST ''(list'']"
    by simp
  moreover have
    "tokenize ''(list 1.0)'' = Inr [Token LIST ''(list'', Token NUMBER ''1.0'', Token RPAREN '')'']"
    "tokenize ''set x'' = Inr [Token SET ''set'', Token IDENT ''x'']"
    "tokenize ''settle'' = Inr [Token IDENT ''settle'']"
    by code_simp+
  ultimately show ?thesis using w m mc by blast
qed


section \<open>Termination\<close>

lemma length_takeWhile_dropWhile: "length (takeWhile P xs) + length (dropWhile P xs) = length xs"
  by (induction xs) auto

lemma match_NUMBER_le: "match_NUMBER s = Some n \<Longrightarrow> n \<le> length s"
  using length_takeWhile_dropWhile [of is_digit s] length_takeWhile_le [of is_digit "tl (dropWhile is_digit s)"]
  by (auto simp: match_NUMBER_def split: list.splits if_splits)

lemma match_STRING_le: "match_STRING s = Some n \<Longrightarrow> n \<le> length s"
  using length_takeWhile_dropWhile [of "\<lambda>x. x \<noteq> CHR 0x27" "tl s"]
  by (auto simp: match_STRING_def split: list.splits if_splits)

lemma match_keyword_le: "match_keyword kw s = Some n \<Longrightarrow> n \<le> length s"
  by (auto simp: match_keyword_def split: if_splits)

lemma match_CONST_le: "match_CONST s = Some n \<Longrightarrow> n \<le> length s"
  using length_takeWhile_dropWhile [of is_ident_char "tl (tl s)"]
  by (auto simp: match_CONST_def split: list.splits if_splits)

lemma match_IDENT_le: "match_IDENT s = Some n \<Longrightarrow> n \<le> length s"
  using length_takeWhile_le [of is_ident_char "tl s"]
  by (auto simp: match_IDENT_def split: list.splits if_splits)

lemma match_char_le: "match_char x s = Some n \<Longrightarrow> n \<le> length s"
  by (auto simp: match_char_def split: list.splits if_splits)

lemma match_SKIP_le: "match_SKIP s = Some n \<Longrightarrow> n \<le> length s"
  using length_takeWhile_le [of is_space s]
  by (auto simp: match_SKIP_def split: if_splits)

lemma first_match_le: "first_match TOKEN_REGEX s = Some (ttype, n) \<Longrightarrow> n \<le> length s"
  unfolding TOKEN_REGEX_def
  by (auto split: option.splits
      dest: match_NUMBER_le match_STRING_le match_keyword_le match_CONST_le
        match_IDENT_le match_char_le match_SKIP_le)

lemma parse_value_bound:
  assumes "parse_value float s = Inr (v, s')"
  shows "pos s' \<le> length (tokens s')"
  using assms
  apply (subst (asm) parse_value.simps)
  apply (subst (asm) parse_list.simps)
  apply (subst (asm) parse_struct.simps)
  apply (auto split: option.splits if_splits sum.splits dest!: consume_Inr)
  done


text \<open>
  C9. The recursion of the lexer's loop, of the five parser functions and of the loop of
  \<open>parse\<close> is well-founded on every input (the domain predicate of each holds
  everywhere: every call ends). The reasons are the ones the claim gives: a pattern that
  matches takes at least one character, and no more than are left; a successful
  \<open>parse_value\<close> or \<open>parse_set\<close> leaves the tokens alone and moves the cursor forward, at
  most to the end of the tokens; the loops of a list and of a struct never move it back.
\<close>

theorem C9_termination:
  "tokenize_loop_dom (src, p, toks) \<and> pdom x \<and> parse_loop_dom (float, s, result) \<and>
   (first_match TOKEN_REGEX inp = Some (ttype, n) \<longrightarrow> 0 < n \<and> n \<le> length inp) \<and>
   (parse_value float s = Inr (v, sv) \<longrightarrow>
      tokens sv = tokens s \<and> pos s < pos sv \<and> pos sv \<le> length (tokens s)) \<and>
   (parse_list_loop float s items = Inr (vs, sl) \<longrightarrow> tokens sl = tokens s \<and> pos s \<le> pos sl) \<and>
   (parse_struct_loop float s obj = Inr (ob, ss) \<longrightarrow> tokens ss = tokens s \<and> pos s \<le> pos ss) \<and>
   (parse_set float s = Inr st \<longrightarrow> tokens st = tokens s \<and> pos s < pos st)"
proof (intro conjI impI)
  show "tokenize_loop_dom (src, p, toks)"
    using tokenize_loop_total by blast
  show "pdom x"
    using parse_total by blast
  show "parse_loop_dom (float, s, result)"
    using parse_loop_total by blast
  show "0 < n" if "first_match TOKEN_REGEX inp = Some (ttype, n)"
    using that by (rule first_match_pos)
  show "n \<le> length inp" if "first_match TOKEN_REGEX inp = Some (ttype, n)"
    using that by (rule first_match_le)
  show "pos sv \<le> length (tokens s)" if "parse_value float s = Inr (v, sv)"
    using parse_value_bound [OF that] parse_value_progress [OF that] by simp
qed (simp_all add: parse_value_progress parse_list_loop_progress parse_struct_loop_progress
    parse_set_progress)

theorem C9_termination_witness:
  "tokenize_loop_dom (''set x = .5'', 0, []) \<and>
   parse_loop_dom (\<lambda>d. d, Parser [Token NUMBER ''.5''], None) \<and>
   first_match TOKEN_REGEX ''set x = .5'' = Some (SET, 3) \<and> (0::nat) < 3 \<and>
   3 \<le> length ''set x = .5'' \<and>
   (\<exists>s1. parse_value (\<lambda>d. d) (Parser [Token NUMBER ''.5'']) = Inr (VNumber ''.5'', s1) \<and>
      pos (Parser [Token NUMBER ''.5'']) < pos s1 \<and> pos s1 \<le> 1)"
proof -
  have m: "first_match TOKEN_REGEX ''set x = .5'' = Some (SET, 3)"
    by code_simp
  have v: "parse_value (\<lambda>d. d) (Parser [Token NUMBER ''.5'']) =
      Inr (VNumber ''.5'', (Parser [Token NUMBER ''.5''])\<lparr>pos := 1\<rparr>)"
    by (simp add: parser_simps)
  note c = C9_termination [where src = "''set x = .5''" and p = 0 and toks = "[]"
      and float = "\<lambda>d. d" and s = "Parser [Token NUMBER ''.5'']" and result = None
      and inp = "''set x = .5''" and ttype = SET and n = 3 and v = "VNumber ''.5''"
      and sv = "(Parser [Token NUMBER ''.5''])\<lparr>pos := 1\<rparr>"]
  note d1 = c [THEN conjunct1]
  note d2 = c [THEN conjunct2, THEN conjunct2, THEN conjunct1]
  note b = c [THEN conjunct2, THEN conjunct2, THEN conjunct2, THEN conjunct1, THEN mp, OF m]
  note e = c [THEN conjunct2, THEN conjunct2, THEN conjunct2, THEN conjunct2, THEN conjunct1,
      THEN mp, OF v]
  from e have "\<exists>s1. parse_value (\<lambda>d. d) (Parser [Token NUMBER ''.5'']) = Inr (VNumber ''.5'', s1) \<and>
      pos (Parser [Token NUMBER ''.5'']) < pos s1 \<and> pos s1 \<le> 1"
    using v by (intro exI [of _ "(Parser [Token NUMBER ''.5''])\<lparr>pos := 1\<rparr>"]) (simp add: Parser_def)
  with d1 d2 m b show ?thesis by simp
qed


section \<open>The result of a program\<close>

lemma parse_loop_values:
  "parse_loop float s result =
     (case top_level_values float s of
        Inl e \<Rightarrow> Inl e
      | Inr vs \<Rightarrow> Inr (last_value result vs))"
proof (induction float s result rule: parse_loop.induct)
  case (1 float s result)
  show ?case
  proof (cases "peek s")
    case None
    then show ?thesis
      by (simp add: parse_loop.simps [of float s] top_level_values.simps [of float s] last_value_def)
  next
    case (Some tok)
    show ?thesis
    proof (cases "tok_type tok = SET")
      case True
      show ?thesis
      proof (cases "parse_set float s")
        case (Inl e)
        with Some True show ?thesis
          by (simp add: parse_loop.simps [of float s] top_level_values.simps [of float s])
      next
        case (Inr s1)
        with Some True "1.IH"(1) [OF Some True Inr] show ?thesis
          by (simp add: parse_loop.simps [of float s] top_level_values.simps [of float s])
      qed
    next
      case False
      show ?thesis
      proof (cases "parse_value float s")
        case (Inl e)
        with Some False show ?thesis
          by (simp add: parse_loop.simps [of float s] top_level_values.simps [of float s])
      next
        case (Inr r)
        obtain v s1 where r: "r = (v, s1)" by (cases r)
        with Some False Inr "1.IH"(2) [OF Some False Inr r [symmetric]] show ?thesis
          by (simp add: parse_loop.simps [of float s] top_level_values.simps [of float s]
              last_value_def split: sum.splits)
      qed
    qed
  qed
qed

lemma consume_peek:
  "consume e s = Inr (t, s1) \<Longrightarrow> peek s = Some t \<and> (e = None \<or> e = Some (tok_type t))"
  by (auto simp: consume_def split: option.splits if_splits)

lemma parse_set_effect:
  assumes "parse_set float s = Inr s'"
  shows "\<exists>name v sv. peek (s\<lparr>pos := pos s + 1\<rparr>) = Some name \<and> tok_type name = IDENT \<and>
    parse_value float (s\<lparr>pos := pos s + 3\<rparr>) = Inr (v, sv) \<and>
    s' = sv\<lparr>constants := (constants s)(tok_value name \<mapsto> v)\<rparr>"
proof -
  from assms obtain t s1 name s2 t' s3 v s4 where
    c1: "consume (Some SET) s = Inr (t, s1)" and
    c2: "consume (Some IDENT) s1 = Inr (name, s2)" and
    c3: "consume (Some EQUAL) s2 = Inr (t', s3)" and
    pv: "parse_value float s3 = Inr (v, s4)" and
    s': "s' = s4\<lparr>constants := (constants s4)(tok_value name \<mapsto> v)\<rparr>"
    by (auto simp: parse_set_def split: sum.splits)
  from consume_Inr [OF c1] have s1: "s1 = s\<lparr>pos := pos s + 1\<rparr>" by simp
  from consume_Inr [OF c2] s1 have s2: "s2 = s\<lparr>pos := pos s + 2\<rparr>" by simp
  from consume_Inr [OF c3] s2 have s3: "s3 = s\<lparr>pos := pos s + 3\<rparr>" by simp
  from consume_peek [OF c2] s1 have n: "peek (s\<lparr>pos := pos s + 1\<rparr>) = Some name" "tok_type name = IDENT"
    by auto
  from parse_value_progress [OF pv] s3 have "constants s4 = constants s" by simp
  with s' pv s3 n show ?thesis by auto
qed

text \<open>
  C3. \<open>parse\<close> fails where collecting the top-level values fails, with the same error;
  where it succeeds it returns the last value that is not a \<open>set\<close> statement, and
  \<open>None\<close> when there is none, as on the empty token sequence. The values before the last
  are parsed and dropped. A \<open>set\<close> statement adds no value: it moves the cursor and binds
  one name in the constant table.
\<close>

theorem C3_last_top_level_value:
  "parse float s =
     (case top_level_values float s of
        Inl e \<Rightarrow> Inl e
      | Inr vs \<Rightarrow> Inr (if vs = [] then None else Some (last vs))) \<and>
   parse float (Parser []) = Inr None \<and>
   top_level_values float (Parser []) = Inr [] \<and>
   (peek s = Some tok \<longrightarrow> tok_type tok = SET \<longrightarrow> parse_set float s = Inr st \<longrightarrow>
      top_level_values float s = top_level_values float st \<and> tokens st = tokens s \<and>
      (\<exists>ident x. constants st = (constants s)(tok_value ident \<mapsto> x)))"
proof -
  have "peek (Parser [] :: 'a parser) = None"
    by (simp add: peek_def Parser_def)
  then have "top_level_values float (Parser []) = Inr []"
    by (simp add: top_level_values.simps [of float "Parser []"])
  moreover have "parse float s =
     (case top_level_values float s of
        Inl e \<Rightarrow> Inl e
      | Inr vs \<Rightarrow> Inr (if vs = [] then None else Some (last vs)))" for s :: "'a parser"
    by (simp add: parse_def parse_loop_values last_value_def split: sum.splits)
  moreover have "top_level_values float s = top_level_values float st \<and> tokens st = tokens s \<and>
      (\<exists>ident x. constants st = (constants s)(tok_value ident \<mapsto> x))"
    if "peek s = Some tok" "tok_type tok = SET" "parse_set float s = Inr st"
  proof -
    from that have "top_level_values float s = top_level_values float st"
      by (simp add: top_level_values.simps [of float s])
    moreover from parse_set_effect [OF that(3)] parse_value_progress
    have "\<exists>ident x. constants st = (constants s)(tok_value ident \<mapsto> x)"
      by fastforce
    ultimately show ?thesis
      using parse_set_progress [OF that(3)] by simp
  qed
  ultimately show ?thesis by simp
qed

theorem C3_last_top_level_value_witness:
  "tokenize ''.5 set x = 1.0 'a' set y = |x|'' =
     Inr [Token NUMBER ''.5'', Token SET ''set'', Token IDENT ''x'', Token EQUAL ''='',
       Token NUMBER ''1.0'', Token STRING (CHR 0x27 # ''a'' @ [CHR 0x27]), Token SET ''set'',
       Token IDENT ''y'', Token EQUAL ''='', Token CONST' ''|x|''] \<and>
   top_level_values (\<lambda>d. d)
     (Parser [Token NUMBER ''.5'', Token SET ''set'', Token IDENT ''x'', Token EQUAL ''='',
       Token NUMBER ''1.0'', Token STRING (CHR 0x27 # ''a'' @ [CHR 0x27]), Token SET ''set'',
       Token IDENT ''y'', Token EQUAL ''='', Token CONST' ''|x|'']) =
     Inr [VNumber ''.5'', VText ''a''] \<and>
   parse (\<lambda>d. d)
     (Parser [Token NUMBER ''.5'', Token SET ''set'', Token IDENT ''x'', Token EQUAL ''='',
       Token NUMBER ''1.0'', Token STRING (CHR 0x27 # ''a'' @ [CHR 0x27]), Token SET ''set'',
       Token IDENT ''y'', Token EQUAL ''='', Token CONST' ''|x|'']) =
     Inr (Some (VText ''a''))"
proof -
  let ?toks = "[Token NUMBER ''.5'', Token SET ''set'', Token IDENT ''x'', Token EQUAL ''='',
       Token NUMBER ''1.0'', Token STRING (CHR 0x27 # ''a'' @ [CHR 0x27]), Token SET ''set'',
       Token IDENT ''y'', Token EQUAL ''='', Token CONST' ''|x|'']"
  have t: "tokenize ''.5 set x = 1.0 'a' set y = |x|'' = Inr ?toks"
    by code_simp
  have v: "top_level_values (\<lambda>d. d) (Parser ?toks) = Inr [VNumber ''.5'', VText ''a'']"
    by (simp add: top_level_values.simps parser_simps)
  from C3_last_top_level_value [of "\<lambda>d. d" "Parser ?toks"] v
  have "parse (\<lambda>d. d) (Parser ?toks) = Inr (Some (VText ''a''))"
    by simp
  with t v show ?thesis by simp
qed


section \<open>Constants\<close>








section \<open>Struct literals\<close>

lemma parse_struct_loop_entries:
  "parse_struct_loop float s obj =
     (case struct_entries float s of
        Inl e \<Rightarrow> Inl e
      | Inr (es, s') \<Rightarrow> Inr (entries_dict es obj, s'))"
proof (induction float s arbitrary: obj rule: struct_entries.induct)
  case (1 float s)
  show ?case
  proof (cases "peek s")
    case None
    then show ?thesis
      by (simp add: parse_struct_loop.simps [of float s] struct_entries.simps [of float s]
          entries_dict_def)
  next
    case (Some tok)
    show ?thesis
    proof (cases "tok_type tok = RBRACE")
      case True
      with Some show ?thesis
        by (simp add: parse_struct_loop.simps [of float s] struct_entries.simps [of float s]
            entries_dict_def)
    next
      case False
      show ?thesis
      proof (cases "\<exists>k s1 t s2 v s3 s4. consume (Some IDENT) s = Inr (k, s1) \<and>
          consume (Some EQUAL) s1 = Inr (t, s2) \<and> parse_value float s2 = Inr (v, s3) \<and>
          optional_comma s3 = Inr s4")
        case True
        then obtain k s1 t s2 v s3 s4 where
          c: "consume (Some IDENT) s = Inr (k, s1)" "consume (Some EQUAL) s1 = Inr (t, s2)"
            "parse_value float s2 = Inr (v, s3)" "optional_comma s3 = Inr s4" by blast
        from "1.IH" [OF Some False c(1) refl c(2) refl c(3) refl c(4)]
        have "parse_struct_loop float s4 (AList.update (tok_value k) v obj) =
            (case struct_entries float s4 of
               Inl e \<Rightarrow> Inl e
             | Inr (es, s') \<Rightarrow> Inr (entries_dict es (AList.update (tok_value k) v obj), s'))" .
        with Some False c show ?thesis
          by (simp add: parse_struct_loop.simps [of float s] struct_entries.simps [of float s]
              entries_dict_def split: sum.splits)
      next
        case False
        with Some \<open>tok_type tok \<noteq> RBRACE\<close> show ?thesis
          by (auto simp add: parse_struct_loop.simps [of float s] struct_entries.simps [of float s]
              split: sum.splits)
      qed
    qed
  qed
qed

lemma entries_dict_map_of: "map_of (entries_dict es obj) = map_of obj ++ map_of (rev es)"
proof (induction es arbitrary: obj)
  case Nil
  show ?case by (simp add: entries_dict_def)
next
  case (Cons e es)
  obtain k v where e: "e = (k, v)" by (cases e)
  have "map_of (entries_dict (e # es) obj) = map_of (entries_dict es (AList.update k v obj))"
    by (simp add: entries_dict_def e)
  also have "\<dots> = map_of (AList.update k v obj) ++ map_of (rev es)"
    by (rule Cons.IH)
  also have "\<dots> = map_of obj ++ map_of (rev (e # es))"
    by (simp add: e update_conv' map_add_upd_left)
  finally show ?case .
qed

lemma entries_dict_distinct: "distinct (map fst obj) \<Longrightarrow> distinct (map fst (entries_dict es obj))"
  by (induction es arbitrary: obj) (auto simp: entries_dict_def distinct_update)

lemma map_of_last_occurrence:
  "k \<notin> fst ` set zs \<Longrightarrow> map_of (rev (ys @ (k, x) # zs)) k = Some x"
  by (simp add: map_add_def map_of_eq_None_iff [THEN iffD2] split: option.splits)


lemma parse_struct_entries:
  "parse_struct float s =
     (case consume (Some STRUCT) s of
        Inl e \<Rightarrow> Inl e
      | Inr (t, sa) \<Rightarrow>
          (case consume (Some LBRACE) sa of
             Inl e \<Rightarrow> Inl e
           | Inr (t', sb) \<Rightarrow>
               (case struct_entries float sb of
                  Inl e \<Rightarrow> Inl e
                | Inr (es, sc) \<Rightarrow>
                    (case consume (Some RBRACE) sc of
                       Inl e \<Rightarrow> Inl e
                     | Inr (t'', sd) \<Rightarrow> Inr (VStruct (entries_dict es []), sd)))))"
  by (simp add: parse_struct.simps [of float s] parse_struct_loop_entries split: sum.splits)

lemma optional_comma_eq:
  "optional_comma s =
     Inr (if \<exists>c. peek s = Some c \<and> tok_type c = COMMA then s\<lparr>pos := pos s + 1\<rparr> else s)"
  by (auto simp: optional_comma_def consume_def split: option.splits)

text \<open>
  C10. A struct literal that parses has the dict of its entries as value: the keys of the
  dict are the keys of the entries, each once, and a key is bound to the value of its
  last entry (the entry after which no entry has that key). A key that comes twice is no
  error: \<open>struct{a=1.0,a=2.0}\<close> parses to the dict that binds \<open>a\<close> to 2.0.
\<close>

theorem C10_duplicate_keys:
  "(parse_struct float s = Inr (v, sv) \<longrightarrow>
      (\<exists>es se. struct_entries float (s\<lparr>pos := pos s + 2\<rparr>) = Inr (es, se) \<and>
         v = VStruct (entries_dict es []) \<and>
         distinct (map fst (entries_dict es [])) \<and>
         fst ` set (entries_dict es []) = fst ` set es \<and>
         (\<forall>k x ys zs. es = ys @ (k, x) # zs \<longrightarrow> k \<notin> fst ` set zs \<longrightarrow>
            map_of (entries_dict es []) k = Some x))) \<and>
   main_tree float ''struct{a=1.0,a=2.0}'' =
     Inr (Some (VStruct [(''a'', VNumber (float ''2.0''))]))"
proof (intro conjI impI)
  assume p: "parse_struct float s = Inr (v, sv)"
  then obtain t sa t' sb es sc t'' where
    c1: "consume (Some STRUCT) s = Inr (t, sa)" and
    c2: "consume (Some LBRACE) sa = Inr (t', sb)" and
    e: "struct_entries float sb = Inr (es, sc)" and
    c3: "consume (Some RBRACE) sc = Inr (t'', sv)" and
    v: "v = VStruct (entries_dict es [])"
    by (auto simp: parse_struct_entries split: sum.splits)
  from consume_Inr [OF c1] consume_Inr [OF c2] have sb: "sb = s\<lparr>pos := pos s + 2\<rparr>"
    by simp
  have "dom (map_of (entries_dict es [])) = dom (map_of (rev es))"
    by (simp add: entries_dict_map_of)
  then have k: "fst ` set (entries_dict es []) = fst ` set es"
    by (simp add: dom_map_of_conv_image_fst)
  have l: "map_of (entries_dict es []) k = Some x"
    if "es = ys @ (k, x) # zs" "k \<notin> fst ` set zs" for k x ys zs
    using map_of_last_occurrence [OF that(2), of ys x] that(1)
    by (simp add: entries_dict_map_of)
  have d: "distinct (map fst (entries_dict es []))"
    by (rule entries_dict_distinct) simp
  from e sb v d k l
  show "\<exists>es se. struct_entries float (s\<lparr>pos := pos s + 2\<rparr>) = Inr (es, se) \<and>
         v = VStruct (entries_dict es []) \<and>
         distinct (map fst (entries_dict es [])) \<and>
         fst ` set (entries_dict es []) = fst ` set es \<and>
         (\<forall>k x ys zs. es = ys @ (k, x) # zs \<longrightarrow> k \<notin> fst ` set zs \<longrightarrow>
            map_of (entries_dict es []) k = Some x)"
    by blast
next
  have t: "tokenize (remove_comments ''struct{a=1.0,a=2.0}'') =
      Inr [Token STRUCT ''struct'', Token LBRACE ''{'', Token IDENT ''a'', Token EQUAL ''='',
        Token NUMBER ''1.0'', Token COMMA '','', Token IDENT ''a'', Token EQUAL ''='',
        Token NUMBER ''2.0'', Token RBRACE ''}'']"
    by code_simp
  show "main_tree float ''struct{a=1.0,a=2.0}'' =
     Inr (Some (VStruct [(''a'', VNumber (float ''2.0''))]))"
    unfolding main_tree_tokens [OF t] by (simp add: parser_simps)
qed

theorem C10_duplicate_keys_witness:
  "(\<exists>sv. parse_struct (\<lambda>d. d)
      (Parser [Token STRUCT ''struct'', Token LBRACE ''{'', Token IDENT ''a'', Token EQUAL ''='',
        Token NUMBER ''1.0'', Token COMMA '','', Token IDENT ''a'', Token EQUAL ''='',
        Token NUMBER ''2.0'', Token RBRACE ''}'']) =
      Inr (VStruct [(''a'', VNumber ''2.0'')], sv)) \<and>
   (\<exists>se. struct_entries (\<lambda>d. d)
      ((Parser [Token STRUCT ''struct'', Token LBRACE ''{'', Token IDENT ''a'', Token EQUAL ''='',
        Token NUMBER ''1.0'', Token COMMA '','', Token IDENT ''a'', Token EQUAL ''='',
        Token NUMBER ''2.0'', Token RBRACE ''}''])\<lparr>pos := 2\<rparr>) =
      Inr ([(''a'', VNumber ''1.0''), (''a'', VNumber ''2.0'')], se)) \<and>
   map_of (entries_dict [(''a'', VNumber ''1.0''), (''a'', VNumber ''2.0'' :: string val)] []) ''a'' =
     Some (VNumber ''2.0'')"
proof -
  let ?toks = "[Token STRUCT ''struct'', Token LBRACE ''{'', Token IDENT ''a'', Token EQUAL ''='',
        Token NUMBER ''1.0'', Token COMMA '','', Token IDENT ''a'', Token EQUAL ''='',
        Token NUMBER ''2.0'', Token RBRACE ''}'']"
  let ?s = "Parser ?toks :: string parser"
  have p: "parse_struct (\<lambda>d. d) ?s = Inr (VStruct [(''a'', VNumber ''2.0'')], ?s\<lparr>pos := 10\<rparr>)"
    by (simp add: parser_simps)
  have e: "struct_entries (\<lambda>d. d) (?s\<lparr>pos := 2\<rparr>) =
      Inr ([(''a'', VNumber ''1.0''), (''a'', VNumber ''2.0'')], ?s\<lparr>pos := 9\<rparr>)"
    by (simp add: struct_entries.simps parser_simps)
  from C10_duplicate_keys [THEN conjunct1, THEN mp, OF p]
  obtain es se where h:
    "struct_entries (\<lambda>d. d) (?s\<lparr>pos := pos ?s + 2\<rparr>) = Inr (es, se) \<and>
     VStruct [(''a'', VNumber ''2.0'')] = VStruct (entries_dict es []) \<and>
     distinct (map fst (entries_dict es [])) \<and>
     fst ` set (entries_dict es []) = fst ` set es \<and>
     (\<forall>k x ys zs. es = ys @ (k, x) # zs \<longrightarrow> k \<notin> fst ` set zs \<longrightarrow>
        map_of (entries_dict es []) k = Some x)"
    by (elim exE)
  have hs: "?s\<lparr>pos := pos ?s + 2\<rparr> = ?s\<lparr>pos := 2\<rparr>"
    by (simp add: Parser_def)
  from h [THEN conjunct1, unfolded hs] e
  have es: "es = [(''a'', VNumber ''1.0''), (''a'', VNumber ''2.0'')]"
    by simp
  note l = h [THEN conjunct2, THEN conjunct2, THEN conjunct2, THEN conjunct2, THEN spec,
      THEN spec, THEN spec, THEN spec, of "[(''a'', VNumber ''1.0'')]" "''a''" "VNumber ''2.0''" "[]"]
  from l es
  have m: "map_of (entries_dict [(''a'', VNumber ''1.0''), (''a'', VNumber ''2.0'' :: string val)] []) ''a'' =
     Some (VNumber ''2.0'')"
    by simp
  show ?thesis
    apply (intro conjI)
      apply (rule exI, rule p)
     apply (rule exI, rule e)
    apply (rule m)
    done
qed


lemma struct_entries_entry:
  assumes "peek s = Some tok" "tok_type tok \<noteq> RBRACE"
    "consume (Some IDENT) s = Inr (k, sa)" "consume (Some EQUAL) sa = Inr (t, sb)"
    "parse_value float sb = Inr (x, sc)"
  shows "struct_entries float s =
     (case struct_entries float
        (if \<exists>c. peek sc = Some c \<and> tok_type c = COMMA then sc\<lparr>pos := pos sc + 1\<rparr> else sc) of
        Inl e \<Rightarrow> Inl e
      | Inr (es, se) \<Rightarrow> Inr ((tok_value k, x) # es, se))"
  using assms
  by (simp add: struct_entries.simps [of float s] optional_comma_eq split: sum.splits)

text \<open>
  The grammar of a struct literal. \<open>parse_struct\<close> takes \<open>struct\<close> and \<open>{\<close>, then the
  entries, then \<open>}\<close>, and returns the dict of the entries. The entries end at the end of
  the tokens, where taking the \<open>}\<close> fails with "Unexpected end of input", or at a \<open>}\<close>.
  Before any other token an entry is an identifier, \<open>=\<close> and a value, and the entries go on
  after the comma that follows the value if there is one, and after the value if there is
  none: \<open>optional_comma\<close> never fails. \<open>struct{a=1.0,b='x'}\<close> parses to
  \<open>{a: 1.0, b: "x"}\<close>; \<open>struct{a=1.0,}\<close> and \<open>struct{a=1.0}\<close> parse to the same dict;
  \<open>struct{a=1.0\<close> fails with the \<open>SyntaxError\<close> "Unexpected end of input".
\<close>

lemma struct_literal_rules:
  "parse_struct float s =
     (case consume (Some STRUCT) s of
        Inl e \<Rightarrow> Inl e
      | Inr (t1, sa) \<Rightarrow>
          (case consume (Some LBRACE) sa of
             Inl e \<Rightarrow> Inl e
           | Inr (t2, sb) \<Rightarrow>
               (case struct_entries float sb of
                  Inl e \<Rightarrow> Inl e
                | Inr (es, sc) \<Rightarrow>
                    (case consume (Some RBRACE) sc of
                       Inl e \<Rightarrow> Inl e
                     | Inr (t3, sd) \<Rightarrow> Inr (VStruct (entries_dict es []), sd))))) \<and>
   (peek s = None \<longrightarrow> struct_entries float s = Inr ([], s) \<and>
      consume (Some RBRACE) s = Inl (SyntaxError ''Unexpected end of input'')) \<and>
   (peek s = Some tok \<longrightarrow> tok_type tok = RBRACE \<longrightarrow> struct_entries float s = Inr ([], s)) \<and>
   (peek s = Some tok \<longrightarrow> tok_type tok \<noteq> RBRACE \<longrightarrow>
    consume (Some IDENT) s = Inr (k, sk) \<longrightarrow> consume (Some EQUAL) sk = Inr (t, se) \<longrightarrow>
    parse_value float se = Inr (x, sx) \<longrightarrow>
      struct_entries float s =
        (case struct_entries float
           (if \<exists>c. peek sx = Some c \<and> tok_type c = COMMA then sx\<lparr>pos := pos sx + 1\<rparr>
            else sx) of
           Inl e \<Rightarrow> Inl e
         | Inr (es, sr) \<Rightarrow> Inr ((tok_value k, x) # es, sr))) \<and>
   optional_comma s =
     Inr (if \<exists>c. peek s = Some c \<and> tok_type c = COMMA then s\<lparr>pos := pos s + 1\<rparr> else s) \<and>
   main_tree float ''struct{a=1.0,b='x'}'' =
     Inr (Some (VStruct [(''a'', VNumber (float ''1.0'')), (''b'', VText ''x'')])) \<and>
   main_tree float ''struct{a=1.0,}'' = Inr (Some (VStruct [(''a'', VNumber (float ''1.0''))])) \<and>
   main_tree float ''struct{a=1.0}'' = Inr (Some (VStruct [(''a'', VNumber (float ''1.0''))])) \<and>
   main_tree float ''struct{a=1.0'' = Inl (SyntaxError ''Unexpected end of input'')"
proof (intro conjI impI)
  show "parse_struct float s =
     (case consume (Some STRUCT) s of
        Inl e \<Rightarrow> Inl e
      | Inr (t1, sa) \<Rightarrow>
          (case consume (Some LBRACE) sa of
             Inl e \<Rightarrow> Inl e
           | Inr (t2, sb) \<Rightarrow>
               (case struct_entries float sb of
                  Inl e \<Rightarrow> Inl e
                | Inr (es, sc) \<Rightarrow>
                    (case consume (Some RBRACE) sc of
                       Inl e \<Rightarrow> Inl e
                     | Inr (t3, sd) \<Rightarrow> Inr (VStruct (entries_dict es []), sd)))))"
    by (rule parse_struct_entries)
  show "struct_entries float s = Inr ([], s)" if "peek s = None"
    using that by (simp add: struct_entries.simps [of float s])
  show "consume (Some RBRACE) s = Inl (SyntaxError ''Unexpected end of input'')"
    if "peek s = None"
    using that by (simp add: consume_def)
  show "struct_entries float s = Inr ([], s)" if "peek s = Some tok" "tok_type tok = RBRACE"
    using that by (simp add: struct_entries.simps [of float s])
  show "struct_entries float s =
        (case struct_entries float
           (if \<exists>c. peek sx = Some c \<and> tok_type c = COMMA then sx\<lparr>pos := pos sx + 1\<rparr>
            else sx) of
           Inl e \<Rightarrow> Inl e
         | Inr (es, sr) \<Rightarrow> Inr ((tok_value k, x) # es, sr))"
    if "peek s = Some tok" "tok_type tok \<noteq> RBRACE" "consume (Some IDENT) s = Inr (k, sk)"
      "consume (Some EQUAL) sk = Inr (t, se)" "parse_value float se = Inr (x, sx)"
    using that by (rule struct_entries_entry)
  show "optional_comma s =
     Inr (if \<exists>c. peek s = Some c \<and> tok_type c = COMMA then s\<lparr>pos := pos s + 1\<rparr> else s)"
    by (rule optional_comma_eq)
  have t1: "tokenize (remove_comments ''struct{a=1.0,b='x'}'') =
      Inr [Token STRUCT ''struct'', Token LBRACE ''{'', Token IDENT ''a'', Token EQUAL ''='',
        Token NUMBER ''1.0'', Token COMMA '','', Token IDENT ''b'', Token EQUAL ''='',
        Token STRING (CHR 0x27 # ''x'' @ [CHR 0x27]), Token RBRACE ''}'']"
    by code_simp
  show "main_tree float ''struct{a=1.0,b='x'}'' =
     Inr (Some (VStruct [(''a'', VNumber (float ''1.0'')), (''b'', VText ''x'')]))"
    unfolding main_tree_tokens [OF t1] by (simp add: parser_simps)
  have t2: "tokenize (remove_comments ''struct{a=1.0,}'') =
      Inr [Token STRUCT ''struct'', Token LBRACE ''{'', Token IDENT ''a'', Token EQUAL ''='',
        Token NUMBER ''1.0'', Token COMMA '','', Token RBRACE ''}'']"
    by code_simp
  show "main_tree float ''struct{a=1.0,}'' = Inr (Some (VStruct [(''a'', VNumber (float ''1.0''))]))"
    unfolding main_tree_tokens [OF t2] by (simp add: parser_simps)
  have t3: "tokenize (remove_comments ''struct{a=1.0}'') =
      Inr [Token STRUCT ''struct'', Token LBRACE ''{'', Token IDENT ''a'', Token EQUAL ''='',
        Token NUMBER ''1.0'', Token RBRACE ''}'']"
    by code_simp
  show "main_tree float ''struct{a=1.0}'' = Inr (Some (VStruct [(''a'', VNumber (float ''1.0''))]))"
    unfolding main_tree_tokens [OF t3] by (simp add: parser_simps)
  have t4: "tokenize (remove_comments ''struct{a=1.0'') =
      Inr [Token STRUCT ''struct'', Token LBRACE ''{'', Token IDENT ''a'', Token EQUAL ''='',
        Token NUMBER ''1.0'']"
    by code_simp
  show "main_tree float ''struct{a=1.0'' = Inl (SyntaxError ''Unexpected end of input'')"
    unfolding main_tree_tokens [OF t4] by (simp add: parser_simps)
qed

lemma struct_literal_rules_example:
  "struct_entries (\<lambda>d. d)
     ((Parser [Token STRUCT ''struct'', Token LBRACE ''{'', Token IDENT ''a'', Token EQUAL ''='',
        Token NUMBER ''1.0'', Token COMMA '','', Token RBRACE ''}''])\<lparr>pos := 2\<rparr>) =
     Inr ([(''a'', VNumber ''1.0'')],
       (Parser [Token STRUCT ''struct'', Token LBRACE ''{'', Token IDENT ''a'', Token EQUAL ''='',
        Token NUMBER ''1.0'', Token COMMA '','', Token RBRACE ''}''])\<lparr>pos := 6\<rparr>) \<and>
   struct_entries (\<lambda>d. d)
     ((Parser [Token STRUCT ''struct'', Token LBRACE ''{'', Token IDENT ''a'', Token EQUAL ''='',
        Token NUMBER ''1.0'', Token RBRACE ''}''])\<lparr>pos := 2\<rparr>) =
     Inr ([(''a'', VNumber ''1.0'')],
       (Parser [Token STRUCT ''struct'', Token LBRACE ''{'', Token IDENT ''a'', Token EQUAL ''='',
        Token NUMBER ''1.0'', Token RBRACE ''}''])\<lparr>pos := 5\<rparr>)"
proof -
  let ?c = "Parser [Token STRUCT ''struct'', Token LBRACE ''{'', Token IDENT ''a'', Token EQUAL ''='',
        Token NUMBER ''1.0'', Token COMMA '','', Token RBRACE ''}''] :: string parser"
  let ?n = "Parser [Token STRUCT ''struct'', Token LBRACE ''{'', Token IDENT ''a'', Token EQUAL ''='',
        Token NUMBER ''1.0'', Token RBRACE ''}''] :: string parser"
  note c = struct_literal_rules [where float = "\<lambda>d. d" and s = "?c\<lparr>pos := 2\<rparr>"
      and tok = "Token IDENT ''a''" and k = "Token IDENT ''a''" and sk = "?c\<lparr>pos := 3\<rparr>"
      and t = "Token EQUAL ''=''" and se = "?c\<lparr>pos := 4\<rparr>" and x = "VNumber ''1.0''"
      and sx = "?c\<lparr>pos := 5\<rparr>"]
  note n = struct_literal_rules [where float = "\<lambda>d. d" and s = "?n\<lparr>pos := 2\<rparr>"
      and tok = "Token IDENT ''a''" and k = "Token IDENT ''a''" and sk = "?n\<lparr>pos := 3\<rparr>"
      and t = "Token EQUAL ''=''" and se = "?n\<lparr>pos := 4\<rparr>" and x = "VNumber ''1.0''"
      and sx = "?n\<lparr>pos := 5\<rparr>"]
  have ec: "struct_entries (\<lambda>d. d) (?c\<lparr>pos := 6\<rparr>) = Inr ([], ?c\<lparr>pos := 6\<rparr>)"
    using struct_literal_rules [where float = "\<lambda>d. d" and s = "?c\<lparr>pos := 6\<rparr>"
        and tok = "Token RBRACE ''}''", THEN conjunct2, THEN conjunct2, THEN conjunct1]
    by (simp add: peek_def Parser_def)
  have en: "struct_entries (\<lambda>d. d) (?n\<lparr>pos := 5\<rparr>) = Inr ([], ?n\<lparr>pos := 5\<rparr>)"
    by (simp add: struct_entries.simps peek_def Parser_def)
  have "struct_entries (\<lambda>d. d) (?c\<lparr>pos := 2\<rparr>) = Inr ([(''a'', VNumber ''1.0'')], ?c\<lparr>pos := 6\<rparr>)"
    using c [THEN conjunct2, THEN conjunct2, THEN conjunct2, THEN conjunct1] ec
    by (simp add: parser_simps)
  moreover
  have "struct_entries (\<lambda>d. d) (?n\<lparr>pos := 2\<rparr>) = Inr ([(''a'', VNumber ''1.0'')], ?n\<lparr>pos := 5\<rparr>)"
    using n [THEN conjunct2, THEN conjunct2, THEN conjunct2, THEN conjunct1] en
    by (simp add: parser_simps)
  ultimately show ?thesis by simp
qed


text \<open>
  C7. The claim: a struct literal is entries \<open>key = value\<close> with an optional comma after
  each, up to \<open>}\<close>, and a struct with no closing \<open>}\<close> fails with a \<open>SyntaxError\<close>. The
  grammar and the examples of the claim hold (\<open>struct_literal_rules\<close>), and a struct that
  ends where a key, a \<open>=\<close> or the \<open>}\<close> is due fails with the \<open>SyntaxError\<close> "Unexpected end
  of input", as \<open>struct{a=1.0\<close> does. A struct that ends where the value of an entry is
  due does not: \<open>parse_value\<close> reads \<open>tok.type\<close> without testing \<open>tok\<close>, so
  \<open>struct{a=1.0,b=\<close> fails with an \<open>AttributeError\<close>, which \<open>main\<close> does not catch.
\<close>

theorem C7_unterminated_struct_AttributeError:
  "main_tree float ''struct{a=1.0,b='' = Inl (AttributeError no_attribute_type) \<and>
   main_tree float ''struct{a=1.0,b'' = Inl (SyntaxError ''Unexpected end of input'') \<and>
   main_tree float ''struct{a=1.0,'' = Inl (SyntaxError ''Unexpected end of input'')"
proof -
  have t1: "tokenize (remove_comments ''struct{a=1.0,b='') =
      Inr [Token STRUCT ''struct'', Token LBRACE ''{'', Token IDENT ''a'', Token EQUAL ''='',
        Token NUMBER ''1.0'', Token COMMA '','', Token IDENT ''b'', Token EQUAL ''='']"
    by code_simp
  have t2: "tokenize (remove_comments ''struct{a=1.0,b'') =
      Inr [Token STRUCT ''struct'', Token LBRACE ''{'', Token IDENT ''a'', Token EQUAL ''='',
        Token NUMBER ''1.0'', Token COMMA '','', Token IDENT ''b'']"
    by code_simp
  have t3: "tokenize (remove_comments ''struct{a=1.0,'') =
      Inr [Token STRUCT ''struct'', Token LBRACE ''{'', Token IDENT ''a'', Token EQUAL ''='',
        Token NUMBER ''1.0'', Token COMMA '','']"
    by code_simp
  show ?thesis
    unfolding main_tree_tokens [OF t1] main_tree_tokens [OF t2] main_tree_tokens [OF t3]
    by (simp add: parser_simps)
qed

section \<open>Comments\<close>

lemma find_close_append: "find_close s = Some r \<Longrightarrow> find_close (s @ b) = Some (r @ b)"
  by (induction s rule: find_close.induct) (auto split: if_splits)

lemma find_close_split:
  "find_close s = Some r \<Longrightarrow> \<exists>m. s = m @ r \<and> (\<forall>b. find_close (m @ b) = Some b)"
proof (induction s rule: find_close.induct)
  case (1 a b cs)
  show ?case
  proof (cases "a = CHR '']'' \<and> b = CHR '']''")
    case True
    with 1(2) have "a # b # cs = [a, b] @ r" by simp
    moreover from True have "\<forall>x. find_close ([a, b] @ x) = Some x" by simp
    ultimately show ?thesis by blast
  next
    case False
    with 1(2) have "find_close (b # cs) = Some r" by auto
    from 1(1) [OF False this] obtain m where m: "b # cs = m @ r" "\<forall>x. find_close (m @ x) = Some x"
      by blast
    from m(2) have "m \<noteq> []" by (auto dest: spec [of _ "[]"])
    with m(1) obtain m' where m': "m = b # m'" by (cases m) auto
    have "\<forall>x. find_close ((a # m) @ x) = Some x"
      using False m(2) m' by auto
    with m(1) show ?thesis by (intro exI [of _ "a # m"]) simp
  qed
qed simp_all

lemma remove_comment_prefix:
  assumes "is_comment c"
  shows "remove_comments (c @ v) = remove_comments v"
proof -
  from assms have o: "take 4 c = ''--[[''" and f: "find_close (drop 4 c) = Some []"
    by (simp_all add: is_comment_def)
  from o have l: "4 \<le> length c"
  proof -
    from o have "length (take 4 c) = 4" by simp
    then show ?thesis by simp
  qed
  from l obtain x xs where c: "c @ v = x # xs" by (cases c) auto
  from l o have "take 4 (c @ v) = ''--[[''" by simp
  moreover from l have "find_close (drop 4 (c @ v)) = Some v"
    using find_close_append [OF f, of v] by simp
  ultimately show ?thesis
    unfolding c by simp
qed


lemma no_opener_after_insert:
  assumes "is_comment c" "p < 3" "p \<le> length xs"
  shows "take 4 (x # take p xs @ c @ drop p xs) \<noteq> ''--[[''"
proof -
  from assms(1) have o: "take 4 c = ''--[[''"
    by (simp add: is_comment_def)
  then obtain c' where c: "c = ''--[['' @ c'"
    by (metis append_take_drop_id)
  from assms(2) consider "p = 0" | "p = 1" | "p = 2" by linarith
  then show ?thesis
  proof cases
    case 1
    then show ?thesis by (simp add: c)
  next
    case 2
    with assms(3) obtain y ys where "xs = y # ys" by (cases xs) auto
    with 2 show ?thesis by (simp add: c)
  next
    case 3
    with assms(3) obtain y z ys where "xs = y # z # ys"
      by (cases xs; cases "tl xs") auto
    with 3 show ?thesis by (simp add: c numeral_2_eq_2)
  qed
qed

lemma insert_comment:
  assumes "is_comment c"
  shows "scan_at t p \<Longrightarrow> p \<le> length t \<Longrightarrow>
    remove_comments (take p t @ c @ drop p t) = remove_comments t"
proof (induction t p rule: scan_at.induct)
  case (1 t)
  show ?case using remove_comment_prefix [OF assms] by simp
next
  case (2 p)
  then show ?case by simp
next
  case (3 x xs p)
  let ?t = "x # xs"
  show ?case
  proof (cases "take 4 ?t = ''--[[''")
    case True
    with "3.prems"(1) obtain rest where
      f: "find_close (drop 4 ?t) = Some rest" and
      k: "length ?t - length rest \<le> Suc p" and
      s: "scan_at rest (Suc p - (length ?t - length rest))"
      by (auto split: option.splits)
    from find_close_split [OF f] obtain m where
      m: "drop 4 ?t = m @ rest" "\<forall>b. find_close (m @ b) = Some b" by blast
    define o4 where "o4 = take 4 ?t"
    from True have o4: "o4 = ''--[[''" and l4: "length o4 = 4"
      by (simp_all add: o4_def)
    have t: "?t = o4 @ m @ rest"
      using m(1) append_take_drop_id [of 4 ?t] by (simp add: o4_def)
    have len: "length ?t = 4 + length m + length rest"
      using arg_cong [OF t, of length] l4 by simp
    define q where "q = Suc p - (length ?t - length rest)"
    from k len have p: "Suc p = 4 + length m + q" by (simp add: q_def)
    from "3.prems"(2) len p have q: "q \<le> length rest" by simp
    let ?r = "take q rest @ c @ drop q rest"
    have "take (Suc p) (o4 @ m @ rest) = o4 @ m @ take q rest"
      by (simp add: p l4)
    then have tk: "take (Suc p) ?t = o4 @ m @ take q rest"
      using t by simp
    have "drop (Suc p) (o4 @ m @ rest) = drop q rest"
      by (simp add: p l4)
    then have dr: "drop (Suc p) ?t = drop q rest"
      using t by simp
    have t': "take (Suc p) ?t @ c @ drop (Suc p) ?t = o4 @ m @ ?r"
      by (simp only: tk dr append_assoc)
    have "remove_comments (o4 @ m @ ?r) = remove_comments ?r"
      using m(2) by (simp add: o4)
    also have "\<dots> = remove_comments rest"
      using "3.IH"(1) [OF True f] s q by (simp add: q_def)
    also have "\<dots> = remove_comments ?t"
      using True f by simp
    finally show ?thesis by (simp only: t')
  next
    case False
    with "3.prems"(1) have s: "scan_at xs p" by simp
    from "3.prems"(2) have p: "p \<le> length xs" by simp
    have n: "take 4 (x # take p xs @ c @ drop p xs) \<noteq> ''--[[''"
    proof (cases "p < 3")
      case True
      then show ?thesis using p by (rule no_opener_after_insert [OF assms])
    next
      case False
      then obtain j where j: "p = 3 + j" by (metis le_add_diff_inverse not_less)
      with p have "take 4 (x # take p xs @ c @ drop p xs) = take 4 ?t"
        by (simp add: take_Cons' min_def)
      with \<open>take 4 ?t \<noteq> ''--[[''\<close> show ?thesis by simp
    qed
    define ys where "ys = take p xs @ c @ drop p xs"
    have e: "take (Suc p) ?t @ c @ drop (Suc p) ?t = x # ys"
      by (simp add: ys_def)
    have n': "take 4 (x # ys) \<noteq> ''--[[''"
      unfolding ys_def by (rule n)
    have "remove_comments (take (Suc p) ?t @ c @ drop (Suc p) ?t) = x # remove_comments ys"
      unfolding e by (simp only: remove_comments.simps n' if_False)
    also have "\<dots> = x # remove_comments xs"
      using "3.IH"(2) [OF False s p] by (simp add: ys_def)
    also have "\<dots> = remove_comments ?t"
      using False by (simp only: remove_comments.simps if_False)
    finally show ?thesis .
  qed
qed


lemma scan_at_no_opener:
  "p \<le> length t \<Longrightarrow> \<forall>i<p. take 4 (drop i t) \<noteq> ''--[['' \<Longrightarrow> scan_at t p"
proof (induction t arbitrary: p)
  case Nil
  then show ?case by simp
next
  case (Cons x xs)
  show ?case
  proof (cases p)
    case 0
    then show ?thesis by simp
  next
    case (Suc q)
    from Cons.prems(2) Suc have o: "take 4 (x # xs) \<noteq> ''--[[''"
      by (metis drop0 zero_less_Suc)
    have "\<forall>i<q. take 4 (drop i xs) \<noteq> ''--[[''"
    proof (intro allI impI)
      fix i assume "i < q"
      then have "Suc i < p" using Suc by simp
      with Cons.prems(2) have "take 4 (drop (Suc i) (x # xs)) \<noteq> ''--[[''" by blast
      then show "take 4 (drop i xs) \<noteq> ''--[[''" by simp
    qed
    moreover from Cons.prems(1) Suc have "q \<le> length xs" by simp
    ultimately have "scan_at xs q" by (rule Cons.IH [rotated])
    with o Suc show ?thesis by (simp only: scan_at.simps if_False)
  qed
qed


text \<open>
  C2, as amended. Let \<open>c\<close> be a block comment and \<open>p\<close> a position of the text \<open>t\<close> at which
  the scan of \<open>remove_comments\<close> stops with every \<open>--[[\<close> before it closed (any position,
  when \<open>t\<close> has no \<open>--[[\<close> before it: \<open>scan_at_no_opener\<close>). Then \<open>t\<close> with \<open>c\<close> put in at
  \<open>p\<close> is stripped to the same text as \<open>t\<close>, and so has the same tokens and the same
  parse result, value or error.
\<close>

theorem C2_comment_insertion:
  assumes "is_comment c" and "scan_at t p" and "p \<le> length t"
  shows "remove_comments (take p t @ c @ drop p t) = remove_comments t \<and>
    main_tree float (take p t @ c @ drop p t) = main_tree float t"
  using insert_comment [OF assms] by (simp add: main_tree_def)

theorem C2_comment_insertion_witness:
  "is_comment ''--[[ note ]]'' \<and> scan_at ''--[[a]] set x = .5 |x|'' 8 \<and>
   take 8 ''--[[a]] set x = .5 |x|'' @ ''--[[ note ]]'' @ drop 8 ''--[[a]] set x = .5 |x|'' =
     ''--[[a]] --[[ note ]]set x = .5 |x|'' \<and>
   main_tree (\<lambda>d. d) ''--[[a]] --[[ note ]]set x = .5 |x|'' =
     main_tree (\<lambda>d. d) ''--[[a]] set x = .5 |x|'' \<and>
   main_tree (\<lambda>d. d) ''--[[a]] set x = .5 |x|'' = Inr (Some (VNumber ''.5''))"
proof -
  have c: "is_comment ''--[[ note ]]''" by (simp add: is_comment_def)
  have s: "scan_at ''--[[a]] set x = .5 |x|'' 8" by code_simp
  have l: "(8::nat) \<le> length ''--[[a]] set x = .5 |x|''" by simp
  have e: "take 8 ''--[[a]] set x = .5 |x|'' @ ''--[[ note ]]'' @ drop 8 ''--[[a]] set x = .5 |x|'' =
     ''--[[a]] --[[ note ]]set x = .5 |x|''" by simp
  have t: "tokenize (remove_comments ''--[[a]] set x = .5 |x|'') =
      Inr [Token SET ''set'', Token IDENT ''x'', Token EQUAL ''='', Token NUMBER ''.5'',
        Token CONST' ''|x|'']"
    by code_simp
  have m: "main_tree (\<lambda>d. d) ''--[[a]] set x = .5 |x|'' = Inr (Some (VNumber ''.5''))"
    unfolding main_tree_tokens [OF t] by (simp add: parser_simps)
  from C2_comment_insertion [OF c s l, of "\<lambda>d. d"]
  have "main_tree (\<lambda>d. d) ''--[[a]] --[[ note ]]set x = .5 |x|'' =
     main_tree (\<lambda>d. d) ''--[[a]] set x = .5 |x|''"
    unfolding e by (rule conjunct2)
  with c s e m show ?thesis by (intro conjI)
qed

text \<open>
  C2 as stated is for every text and every position. The stripping knows nothing of
  string literals: in \<open>(list '--[[')\<close> the string holds a \<open>--[[\<close> that nothing closes, the
  text parses to the list of that string, and with the comment \<open>--[[c]]\<close> put after it
  the removal runs from inside the string to the end of the comment, which leaves an open
  quote and a \<open>SyntaxError\<close>.
\<close>

theorem C2_counterexample:
  "is_comment ''--[[c]]'' \<and>
   main_tree (\<lambda>d. d) ''(list '--[[')'' = Inr (Some (VList [VText ''--[['']))  \<and>
   main_tree (\<lambda>d. d) (''(list '--[[')'' @ ''--[[c]]'') =
     Inl (SyntaxError ''Unexpected character at position 6'')"
proof -
  have c: "is_comment ''--[[c]]''" by (simp add: is_comment_def)
  have t1: "tokenize (remove_comments ''(list '--[[')'') =
      Inr [Token LIST ''(list'', Token STRING (CHR 0x27 # ''--[['' @ [CHR 0x27]), Token RPAREN '')'']"
    by code_simp
  have m1: "main_tree (\<lambda>d. d) ''(list '--[[')'' = Inr (Some (VList [VText ''--[['']))"
    unfolding main_tree_tokens [OF t1] by (simp add: parser_simps)
  have t2: "tokenize (remove_comments (''(list '--[[')'' @ ''--[[c]]'')) =
      Inl (SyntaxError ''Unexpected character at position 6'')"
    by code_simp
  have m2: "main_tree (\<lambda>d. d) (''(list '--[[')'' @ ''--[[c]]'') =
     Inl (SyntaxError ''Unexpected character at position 6'')"
    by (simp only: main_tree_def t2 sum.case)
  from c m1 m2 show ?thesis by (intro conjI)
qed


end
